theory Spec2Isabelle
  imports Main
begin

section \<open>The concurrent credential search of bruteforce.py\<close>

text \<open>
  The program of \<^verbatim>\<open>custom-tools/brute-forcing/bruteforce.py\<close> is a class
  \<^verbatim>\<open>BruteForcer\<close> with three shared fields (\<^verbatim>\<open>found_password\<close>,
  \<^verbatim>\<open>lock\<close>, \<^verbatim>\<open>correct_password\<close>), a method \<^verbatim>\<open>log\<close>, a method
  \<^verbatim>\<open>try_password\<close> that is run once per password by a pool of at most ten threads, and
  a method \<^verbatim>\<open>run\<close> executed by the main thread.

  The threads are modelled by interleaving: a global state, and one atomic transition per
  event. An event names the thread that moves. Every read or write of
  \<^verbatim>\<open>found_password\<close> and \<^verbatim>\<open>correct_password\<close> and every acquisition of the lock
  is a transition of its own. A \<^verbatim>\<open>print\<close> made with the lock held is one transition
  with the release of the lock and the return that follow it: between them the thread
  touches nothing another thread reads but the lock and its own future.
\<close>

subsection \<open>Data\<close>

text \<open>
  What \<^verbatim>\<open>requests.post\<close> gives for one password, as line 31 to 43 distinguish it:
  a response whose text does not contain "Invalid" (\<open>Success\<close>), a response whose text
  contains it (\<open>Rejected\<close>), or an exception with its text (\<open>Error\<close>).
\<close>

datatype outcome = Success | Rejected | Error string

text \<open>
  The three lines the program prints: line 38 (\<open>FoundLine\<close>, for the password), line 41
  (\<open>AttemptedLine\<close>, for the password) and line 43 (\<open>ErrorLine\<close>, for the password and
  the text of the exception).
\<close>

datatype line = FoundLine string | AttemptedLine string | ErrorLine string string

fun is_found_line :: "line \<Rightarrow> bool" where
  "is_found_line (FoundLine p) = True"
| "is_found_line _ = False"

text \<open>
  The place of a thread inside \<^verbatim>\<open>try_password\<close>, named by what it executes next:
  \<^item> \<open>CheckFound\<close>: the test of line 26;
  \<^item> \<open>Posting\<close>: the call of line 31, which has been sent and not answered yet;
  \<^item> \<open>ClaimLock\<close>: \<^verbatim>\<open>with self.lock\<close> of line 34, waiting for the lock;
  \<^item> \<open>ClaimTest\<close>: the test of line 35, with the lock held;
  \<^item> \<open>SetFound\<close>: the assignment of line 36;
  \<^item> \<open>SetWinner\<close>: the assignment of line 37;
  \<^item> \<open>PrintWin\<close>: the print of line 38, followed by the return of line 39;
  \<^item> \<open>LogLock m\<close>: inside \<^verbatim>\<open>log(m)\<close>, \<^verbatim>\<open>with self.lock\<close> of line 21;
  \<^item> \<open>LogTest m\<close>: the test of line 22, with the lock held;
  \<^item> \<open>LogPrint m\<close>: the print of line 23, followed by the return of line 44.
\<close>

datatype pc =
    CheckFound | Posting
  | ClaimLock | ClaimTest | SetFound | SetWinner | PrintWin
  | LogLock line | LogTest line | LogPrint line

text \<open>
  The state of a future of \<^verbatim>\<open>concurrent.futures\<close>: queued, cancelled before it
  started, running (with the place of the thread that runs it), or finished with the value
  \<^verbatim>\<open>try_password\<close> returned.
\<close>

datatype fstate = Pending | Cancelled | Running pc | Finished bool

fun is_done :: "fstate \<Rightarrow> bool" where
  "is_done Cancelled = True"
| "is_done (Finished b) = True"
| "is_done _ = False"

fun is_running :: "fstate \<Rightarrow> bool" where
  "is_running (Running c) = True"
| "is_running _ = False"

text \<open>
  The place of the main thread inside \<^verbatim>\<open>run\<close>:
  \<^item> \<open>MSubmit ps\<close>: the list comprehension of line 48, with the passwords \<open>ps\<close> still to
    submit;
  \<^item> \<open>MWait\<close>: \<^verbatim>\<open>as_completed\<close> of line 50, waiting for the next completed future;
  \<^item> \<open>MCheck\<close>: the test of line 51;
  \<^item> \<open>MCancel k\<close>: the loop of line 52 and 53, about to cancel the future of index \<open>k\<close>;
  \<^item> \<open>MShutdown\<close>: line 56;
  \<^item> \<open>MJoin\<close>: the end of the \<^verbatim>\<open>with\<close> block of line 47, which waits for the threads of
    the pool;
  \<^item> \<open>MDone\<close>: \<^verbatim>\<open>run\<close> has returned.
\<close>

datatype mpc = MSubmit "string list" | MWait | MCheck | MCancel nat | MShutdown | MJoin | MDone

text \<open>
  The state of a run. The first three fields are the fields of \<^verbatim>\<open>BruteForcer\<close>; the
  lock holds the index of the task whose thread owns it. \<open>futures\<close> is the list of line
  48, each future with the password its task was submitted with. \<open>seen\<close> are the indices
  \<^verbatim>\<open>as_completed\<close> has yielded so far. \<open>printed\<close> is what has been printed, and
  \<open>oracle_calls\<close> records the index of the task at each call of \<^verbatim>\<open>requests.post\<close>,
  in the order of the calls.
\<close>

record state =
  found_password :: bool
  lock :: "nat option"
  correct_password :: "string option"
  futures :: "(string \<times> fstate) list"
  main_pc :: mpc
  seen :: "nat list"
  printed :: "line list"
  oracle_calls :: "nat list"

text \<open>\<^verbatim>\<open>__init__\<close> (line 14 to 17), and the main thread at the start of \<^verbatim>\<open>run\<close>.\<close>

definition init :: "string list \<Rightarrow> state" where
  "init pw =
     \<lparr> found_password = False, lock = None, correct_password = None,
       futures = [], main_pc = MSubmit pw, seen = [],
       printed = [], oracle_calls = [] \<rparr>"

text \<open>
  The password list of line 11: the numbers below 1000, written with three digits, each
  followed by one upper-case letter, in the order of \<^verbatim>\<open>itertools.product\<close>. The program
  is \<^verbatim>\<open>run\<close> on this list; what follows holds for every list.
\<close>

definition ascii_uppercase :: string where
  "ascii_uppercase = ''ABCDEFGHIJKLMNOPQRSTUVWXYZ''"

definition digit_char :: "nat \<Rightarrow> char" where
  "digit_char d = ''0123456789'' ! d"

definition pad3 :: "nat \<Rightarrow> string" where
  "pad3 n = [digit_char (n div 100 mod 10), digit_char (n div 10 mod 10), digit_char (n mod 10)]"

definition password_list :: "string list" where
  "password_list = [pad3 num @ [ch]. num \<leftarrow> [0..<1000], ch \<leftarrow> ascii_uppercase]"

text \<open>\<^verbatim>\<open>ThreadPoolExecutor(max_workers=10)\<close>, line 47.\<close>

definition max_workers :: nat where
  "max_workers = 10"

subsection \<open>Transitions of a pool thread\<close>

definition set_pc :: "nat \<Rightarrow> pc \<Rightarrow> state \<Rightarrow> state" where
  "set_pc i c s = s\<lparr>futures := (futures s)[i := (fst (futures s ! i), Running c)]\<rparr>"

definition finish :: "nat \<Rightarrow> bool \<Rightarrow> state \<Rightarrow> state" where
  "finish i b s = s\<lparr>futures := (futures s)[i := (fst (futures s ! i), Finished b)]\<rparr>"

text \<open>
  \<^verbatim>\<open>log\<close> (line 19 to 23), called by task \<open>i\<close> with message \<open>m\<close>. The lock of
  \<^verbatim>\<open>threading.Lock\<close> is taken only when it is free; a thread that finds it taken has no
  transition until it is released. The return of \<^verbatim>\<open>log\<close> is followed by
  \<^verbatim>\<open>return False\<close> of line 44 at both call sites.
\<close>

fun log_step :: "nat \<Rightarrow> pc \<Rightarrow> state \<Rightarrow> state option" where
  "log_step i (LogLock m) s =
     (if lock s = None then Some (set_pc i (LogTest m) (s\<lparr>lock := Some i\<rparr>)) else None)"
| "log_step i (LogTest m) s =
     (if \<not> found_password s then Some (set_pc i (LogPrint m) s)
      else Some (finish i False (s\<lparr>lock := None\<rparr>)))"
| "log_step i (LogPrint m) s =
     Some (finish i False (s\<lparr>printed := printed s @ [m], lock := None\<rparr>))"
| "log_step i c s = None"

text \<open>
  \<^verbatim>\<open>try_password\<close> (line 25 to 44), run by task \<open>i\<close> for password \<open>p\<close>;
  \<open>resp i\<close> is what \<^verbatim>\<open>requests.post\<close> gives to the call of task \<open>i\<close>.
\<close>

fun try_password_step :: "(nat \<Rightarrow> outcome) \<Rightarrow> nat \<Rightarrow> string \<Rightarrow> pc \<Rightarrow> state \<Rightarrow> state option" where
  "try_password_step resp i p CheckFound s =
     (if found_password s then Some (finish i False s)
      else Some (set_pc i Posting (s\<lparr>oracle_calls := oracle_calls s @ [i]\<rparr>)))"
| "try_password_step resp i p Posting s =
     (case resp i of
        Success \<Rightarrow> Some (set_pc i ClaimLock s)
      | Rejected \<Rightarrow> Some (set_pc i (LogLock (AttemptedLine p)) s)
      | Error e \<Rightarrow> Some (set_pc i (LogLock (ErrorLine p e)) s))"
| "try_password_step resp i p ClaimLock s =
     (if lock s = None then Some (set_pc i ClaimTest (s\<lparr>lock := Some i\<rparr>)) else None)"
| "try_password_step resp i p ClaimTest s =
     (if \<not> found_password s then Some (set_pc i SetFound s)
      else Some (finish i False (s\<lparr>lock := None\<rparr>)))"
| "try_password_step resp i p SetFound s =
     Some (set_pc i SetWinner (s\<lparr>found_password := True\<rparr>))"
| "try_password_step resp i p SetWinner s =
     Some (set_pc i PrintWin (s\<lparr>correct_password := Some p\<rparr>))"
| "try_password_step resp i p PrintWin s =
     Some (finish i True (s\<lparr>printed := printed s @ [FoundLine p], lock := None\<rparr>))"
| "try_password_step resp i p c s = log_step i c s"

text \<open>
  The pool: a queued task can be started when fewer than \<open>max_workers\<close> tasks are
  running. The threads of the pool take the tasks from the queue in the order of their
  submission, but a task taken from the queue is still pending, and can still be
  cancelled, until its thread marks it as running; so the order in which queued tasks
  become running is left open here, which allows every order the pool can produce. A
  started task runs \<^verbatim>\<open>try_password\<close>; a cancelled or finished one has no transition.
\<close>

definition running_count :: "(string \<times> fstate) list \<Rightarrow> nat" where
  "running_count fs = length (filter (\<lambda>t. is_running (snd t)) fs)"

definition worker_step :: "(nat \<Rightarrow> outcome) \<Rightarrow> nat \<Rightarrow> state \<Rightarrow> state option" where
  "worker_step resp i s =
     (if i < length (futures s) then
        (case futures s ! i of
           (p, Pending) \<Rightarrow>
             (if running_count (futures s) < max_workers
              then Some (set_pc i CheckFound s) else None)
         | (p, Running c) \<Rightarrow> try_password_step resp i p c s
         | (p, Cancelled) \<Rightarrow> None
         | (p, Finished b) \<Rightarrow> None)
      else None)"

subsection \<open>Transitions of the main thread\<close>

text \<open>
  \<^verbatim>\<open>run\<close> (line 46 to 56). \<^verbatim>\<open>Future.cancel\<close> turns a queued future into a cancelled
  one and leaves a running or finished one as it is. The end of the \<^verbatim>\<open>with\<close> block
  returns when the pool has no queued and no running task left.
\<close>

fun run_step :: "state \<Rightarrow> state option" where
  "run_step s =
     (case main_pc s of
        MSubmit [] \<Rightarrow> Some (s\<lparr>main_pc := MWait\<rparr>)
      | MSubmit (p # ps) \<Rightarrow> Some (s\<lparr>futures := futures s @ [(p, Pending)], main_pc := MSubmit ps\<rparr>)
      | MWait \<Rightarrow>
          (if length (futures s) \<le> length (seen s) then Some (s\<lparr>main_pc := MShutdown\<rparr>) else None)
      | MCheck \<Rightarrow>
          (if found_password s then Some (s\<lparr>main_pc := MCancel 0\<rparr>) else Some (s\<lparr>main_pc := MWait\<rparr>))
      | MCancel k \<Rightarrow>
          (if k < length (futures s) then
             (if snd (futures s ! k) = Pending
              then Some (s\<lparr>futures := (futures s)[k := (fst (futures s ! k), Cancelled)],
                          main_pc := MCancel (Suc k)\<rparr>)
              else Some (s\<lparr>main_pc := MCancel (Suc k)\<rparr>))
           else Some (s\<lparr>main_pc := MShutdown\<rparr>))
      | MShutdown \<Rightarrow> Some (s\<lparr>main_pc := MJoin\<rparr>)
      | MJoin \<Rightarrow>
          (if list_all (\<lambda>t. is_done (snd t)) (futures s) then Some (s\<lparr>main_pc := MDone\<rparr>) else None)
      | MDone \<Rightarrow> None)"

text \<open>
  \<^verbatim>\<open>as_completed\<close> yields a future that is cancelled or finished and that it has not
  yielded before; the body of the loop then runs for it.
\<close>

definition see_step :: "nat \<Rightarrow> state \<Rightarrow> state option" where
  "see_step i s =
     (if main_pc s = MWait \<and> i < length (futures s) \<and> i \<notin> set (seen s)
         \<and> is_done (snd (futures s ! i))
      then Some (s\<lparr>seen := seen s @ [i], main_pc := MCheck\<rparr>) else None)"

subsection \<open>Runs\<close>

text \<open>
  An event is a move of the main thread (\<open>EMain\<close>), the main thread receiving the future
  of index \<open>i\<close> from \<^verbatim>\<open>as_completed\<close> (\<open>ESee i\<close>), or a move of the pool thread of task
  \<open>i\<close> (\<open>EWork i\<close>). A schedule is a list of events; it is a run when each event is
  enabled in the state the previous ones lead to.
\<close>

datatype event = EMain | ESee nat | EWork nat

fun step :: "(nat \<Rightarrow> outcome) \<Rightarrow> event \<Rightarrow> state \<Rightarrow> state option" where
  "step resp EMain s = run_step s"
| "step resp (ESee i) s = see_step i s"
| "step resp (EWork i) s = worker_step resp i s"

fun steps :: "(nat \<Rightarrow> outcome) \<Rightarrow> event list \<Rightarrow> state \<Rightarrow> state option" where
  "steps resp [] s = Some s"
| "steps resp (e # es) s =
     (case step resp e s of None \<Rightarrow> None | Some s' \<Rightarrow> steps resp es s')"

text \<open>The number of calls of \<^verbatim>\<open>requests.post\<close> that are in flight.\<close>

definition in_flight :: "state \<Rightarrow> nat" where
  "in_flight s = length (filter (\<lambda>t. snd t = Running Posting) (futures s))"

text \<open>
  What the model takes from the libraries rather than from the source file:
  \<^item> a call of \<^verbatim>\<open>requests.post\<close> returns or raises (it has no timeout in line 31; a call
    that never returns is outside the model), and \<open>resp\<close> gives the result of the one call
    each task can make;
  \<^item> \<^verbatim>\<open>print\<close> does not raise;
  \<^item> the pool of \<^verbatim>\<open>ThreadPoolExecutor\<close> runs at most \<open>max_workers\<close> tasks at a time,
    has a thread for a queued task whenever fewer are running, and never runs a cancelled
    future.
\<close>

section \<open>The termination measure\<close>

text \<open>
  Every transition makes a task or the main thread advance. The weight of a task is the
  number of transitions it can still make at most; the weight of the main thread bounds
  its remaining transitions, counting the futures \<^verbatim>\<open>as_completed\<close> has not yielded yet.
\<close>

fun task_weight :: "fstate \<Rightarrow> nat" where
  "task_weight Pending = 8"
| "task_weight (Running CheckFound) = 7"
| "task_weight (Running Posting) = 6"
| "task_weight (Running ClaimLock) = 5"
| "task_weight (Running ClaimTest) = 4"
| "task_weight (Running SetFound) = 3"
| "task_weight (Running SetWinner) = 2"
| "task_weight (Running PrintWin) = 1"
| "task_weight (Running (LogLock m)) = 3"
| "task_weight (Running (LogTest m)) = 2"
| "task_weight (Running (LogPrint m)) = 1"
| "task_weight Cancelled = 0"
| "task_weight (Finished b) = 0"

definition pool_weight :: "(string \<times> fstate) list \<Rightarrow> nat" where
  "pool_weight fs = sum_list (map (\<lambda>t. task_weight (snd t)) fs)"

definition main_weight :: "state \<Rightarrow> nat" where
  "main_weight s =
     (case main_pc s of
        MSubmit ps \<Rightarrow> 9 * length ps + 3 * (length (futures s) + length ps) + 6
      | MWait \<Rightarrow> length (futures s) + 4 + 2 * card ({..<length (futures s)} - set (seen s))
      | MCheck \<Rightarrow> length (futures s) + 5 + 2 * card ({..<length (futures s)} - set (seen s))
      | MCancel k \<Rightarrow> 3 + (length (futures s) - k)
      | MShutdown \<Rightarrow> 2
      | MJoin \<Rightarrow> 1
      | MDone \<Rightarrow> 0)"

definition weight :: "state \<Rightarrow> nat" where
  "weight s = main_weight s + pool_weight (futures s)"

section \<open>Invariants of the reachable states\<close>

text \<open>
  The lock is owned by the task whose thread is inside one of the two \<^verbatim>\<open>with self.lock\<close>
  blocks, and by no other.
\<close>

fun holds_lock :: "fstate \<Rightarrow> bool" where
  "holds_lock (Running ClaimTest) = True"
| "holds_lock (Running SetFound) = True"
| "holds_lock (Running SetWinner) = True"
| "holds_lock (Running PrintWin) = True"
| "holds_lock (Running (LogTest m)) = True"
| "holds_lock (Running (LogPrint m)) = True"
| "holds_lock _ = False"

definition inv_lock :: "state \<Rightarrow> bool" where
  "inv_lock s \<longleftrightarrow>
     (\<forall>i < length (futures s). holds_lock (snd (futures s ! i)) = (lock s = Some i)) \<and>
     (\<forall>i. lock s = Some i \<longrightarrow> i < length (futures s))"

text \<open>
  \<open>claimed\<close>: the task has executed the assignment of line 36. \<open>won\<close>: it has also
  executed the assignment of line 37. \<open>saw_unfound\<close>: the task has read
  \<^verbatim>\<open>found_password\<close> as false under the lock (line 22 or 35) and is about to act on it.
  The flag is true exactly when some task has claimed, such tasks are unique, and
  \<^verbatim>\<open>correct_password\<close> is the password of the task that has won.
\<close>

fun claimed :: "fstate \<Rightarrow> bool" where
  "claimed (Running SetWinner) = True"
| "claimed (Running PrintWin) = True"
| "claimed (Finished True) = True"
| "claimed _ = False"

fun won :: "fstate \<Rightarrow> bool" where
  "won (Running PrintWin) = True"
| "won (Finished True) = True"
| "won _ = False"

fun saw_unfound :: "fstate \<Rightarrow> bool" where
  "saw_unfound (Running SetFound) = True"
| "saw_unfound (Running (LogPrint m)) = True"
| "saw_unfound _ = False"

definition inv_found :: "state \<Rightarrow> bool" where
  "inv_found s \<longleftrightarrow>
     (\<forall>k < length (futures s). claimed (snd (futures s ! k)) \<longrightarrow> found_password s) \<and>
     (\<forall>k < length (futures s). saw_unfound (snd (futures s ! k)) \<longrightarrow> \<not> found_password s) \<and>
     (found_password s \<longrightarrow> (\<exists>k < length (futures s). claimed (snd (futures s ! k))))"

definition inv_unique :: "state \<Rightarrow> bool" where
  "inv_unique s \<longleftrightarrow>
     (\<forall>k < length (futures s). \<forall>j < length (futures s).
        claimed (snd (futures s ! k)) \<and> claimed (snd (futures s ! j)) \<longrightarrow> k = j)"

definition inv_winner :: "state \<Rightarrow> bool" where
  "inv_winner s \<longleftrightarrow>
     (\<forall>k < length (futures s). won (snd (futures s ! k)) \<longrightarrow>
        correct_password s = Some (fst (futures s ! k))) \<and>
     (correct_password s \<noteq> None \<longrightarrow> (\<exists>k < length (futures s). won (snd (futures s ! k))))"

text \<open>
  The place of a task agrees with what the oracle answered to it: it is in the claim of line
  34 to 39 only after \<open>Success\<close>, and inside \<^verbatim>\<open>log\<close> with the message of line 41 after
  \<open>Rejected\<close>, with the message of line 43 after \<open>Error\<close>.
\<close>

fun log_line_ok :: "(nat \<Rightarrow> outcome) \<Rightarrow> nat \<Rightarrow> string \<Rightarrow> line \<Rightarrow> bool" where
  "log_line_ok resp k p m =
     (case resp k of Success \<Rightarrow> False | Rejected \<Rightarrow> m = AttemptedLine p
      | Error e \<Rightarrow> m = ErrorLine p e)"

fun resp_ok :: "(nat \<Rightarrow> outcome) \<Rightarrow> nat \<Rightarrow> string \<Rightarrow> fstate \<Rightarrow> bool" where
  "resp_ok resp k p (Running ClaimLock) = (resp k = Success)"
| "resp_ok resp k p (Running ClaimTest) = (resp k = Success)"
| "resp_ok resp k p (Running SetFound) = (resp k = Success)"
| "resp_ok resp k p (Running SetWinner) = (resp k = Success)"
| "resp_ok resp k p (Running PrintWin) = (resp k = Success)"
| "resp_ok resp k p (Finished True) = (resp k = Success)"
| "resp_ok resp k p (Running (LogLock m)) = log_line_ok resp k p m"
| "resp_ok resp k p (Running (LogTest m)) = log_line_ok resp k p m"
| "resp_ok resp k p (Running (LogPrint m)) = log_line_ok resp k p m"
| "resp_ok resp k p st = True"

definition inv_resp :: "(nat \<Rightarrow> outcome) \<Rightarrow> state \<Rightarrow> bool" where
  "inv_resp resp s \<longleftrightarrow>
     (\<forall>k < length (futures s). resp_ok resp k (fst (futures s ! k)) (snd (futures s ! k)))"

text \<open>
  Futures are cancelled only by the loop of line 52, which is entered only with the flag
  set.
\<close>

definition inv_cancel :: "state \<Rightarrow> bool" where
  "inv_cancel s \<longleftrightarrow>
     (\<forall>k < length (futures s). snd (futures s ! k) = Cancelled \<longrightarrow> found_password s) \<and>
     (\<forall>j. main_pc s = MCancel j \<longrightarrow> found_password s)"

text \<open>
  The futures are created for the passwords of the list, in its order, and all of them
  before \<^verbatim>\<open>as_completed\<close> is entered.
\<close>

definition inv_submit :: "string list \<Rightarrow> state \<Rightarrow> bool" where
  "inv_submit pw s \<longleftrightarrow>
     (case main_pc s of
        MSubmit ps \<Rightarrow> map fst (futures s) @ ps = pw \<and> seen s = []
      | _ \<Rightarrow> map fst (futures s) = pw)"

text \<open>
  \<open>called\<close>: the task is past the test of line 26. No task calls the oracle twice; the
  tasks that have called it are past that test; and a task past that test has called it,
  unless the test made it return at once.
\<close>

fun called :: "fstate \<Rightarrow> bool" where
  "called Pending = False"
| "called Cancelled = False"
| "called (Running CheckFound) = False"
| "called st = True"

definition inv_calls :: "state \<Rightarrow> bool" where
  "inv_calls s \<longleftrightarrow>
     distinct (oracle_calls s) \<and>
     (\<forall>j \<in> set (oracle_calls s). j < length (futures s) \<and> called (snd (futures s ! j))) \<and>
     (\<forall>k < length (futures s). called (snd (futures s ! k)) \<longrightarrow>
        k \<in> set (oracle_calls s) \<or> (found_password s \<and> snd (futures s ! k) = Finished False))"

text \<open>
  A task returns \<^verbatim>\<open>False\<close> after a \<open>Success\<close> only when the flag is set; a task that
  returns \<^verbatim>\<open>False\<close> after an \<open>Error\<close> with the flag still unset has printed the line
  of line 43.
\<close>

definition inv_success :: "(nat \<Rightarrow> outcome) \<Rightarrow> state \<Rightarrow> bool" where
  "inv_success resp s \<longleftrightarrow>
     (\<forall>k < length (futures s).
        resp k = Success \<and> snd (futures s ! k) = Finished False \<longrightarrow> found_password s)"

definition inv_error :: "(nat \<Rightarrow> outcome) \<Rightarrow> state \<Rightarrow> bool" where
  "inv_error resp s \<longleftrightarrow>
     (\<forall>k < length (futures s). \<forall>e.
        resp k = Error e \<and> snd (futures s ! k) = Finished False \<and> \<not> found_password s \<longrightarrow>
        ErrorLine (fst (futures s ! k)) e \<in> set (printed s))"

text \<open>
  The pool never runs more than \<open>max_workers\<close> tasks.
\<close>

definition inv_workers :: "state \<Rightarrow> bool" where
  "inv_workers s \<longleftrightarrow> running_count (futures s) \<le> max_workers"

text \<open>
  The line of line 38 is printed by the task that returns \<^verbatim>\<open>True\<close>, as the last line
  of the output, and nowhere else.
\<close>

definition no_win :: "line list \<Rightarrow> bool" where
  "no_win ls = list_all (\<lambda>l. \<not> is_found_line l) ls"

definition inv_out :: "state \<Rightarrow> bool" where
  "inv_out s \<longleftrightarrow>
     (\<forall>k < length (futures s). snd (futures s ! k) = Finished True \<longrightarrow>
        printed s \<noteq> [] \<and> last (printed s) = FoundLine (fst (futures s ! k))
        \<and> no_win (butlast (printed s))) \<and>
     ((\<exists>k < length (futures s). snd (futures s ! k) = Finished True) \<or> no_win (printed s))"

text \<open>
  \<^verbatim>\<open>run\<close> returns only when every future is cancelled or finished.
\<close>

definition inv_done :: "state \<Rightarrow> bool" where
  "inv_done s \<longleftrightarrow>
     (main_pc s = MDone \<longrightarrow> (\<forall>k < length (futures s). is_done (snd (futures s ! k))))"

definition reach_inv :: "(nat \<Rightarrow> outcome) \<Rightarrow> string list \<Rightarrow> state \<Rightarrow> bool" where
  "reach_inv resp pw s \<longleftrightarrow>
     inv_lock s \<and> inv_found s \<and> inv_unique s \<and> inv_winner s \<and> inv_resp resp s \<and>
     inv_cancel s \<and> inv_submit pw s \<and> inv_calls s \<and> inv_success resp s \<and>
     inv_error resp s \<and> inv_workers s \<and> inv_out s \<and> inv_done s"

section \<open>Concrete runs\<close>

text \<open>
  Three passwords, of which the oracle accepts \<^verbatim>\<open>000B\<close> and faults on \<^verbatim>\<open>000C\<close>.
  \<open>demo_sched\<close> is a complete run: the three tasks call the oracle, the fault is logged,
  \<^verbatim>\<open>000B\<close> is claimed, the rejection of \<^verbatim>\<open>000A\<close> comes after the claim and is not
  printed.
\<close>

definition demo_pw :: "string list" where
  "demo_pw = [''000A'', ''000B'', ''000C'']"

definition demo_oracle :: "string \<Rightarrow> outcome" where
  "demo_oracle c =
     (if c = ''000B'' then Success else if c = ''000C'' then Error ''timeout'' else Rejected)"

definition demo_resp :: "nat \<Rightarrow> outcome" where
  "demo_resp i = demo_oracle (demo_pw ! i)"

definition demo_sched :: "event list" where
  "demo_sched =
     [EMain, EMain, EMain, EMain,
      EWork 0, EWork 1, EWork 2, EWork 0, EWork 1, EWork 2,
      EWork 2, EWork 2, EWork 2, EWork 2,
      EWork 1, EWork 1, EWork 1, EWork 1, EWork 1, EWork 1,
      EWork 0, EWork 0, EWork 0,
      ESee 2, EMain, EMain, EMain, EMain, EMain, EMain, EMain]"

definition demo_final :: state where
  "demo_final =
     \<lparr> found_password = True, lock = None, correct_password = Some ''000B'',
       futures = [(''000A'', Finished False), (''000B'', Finished True),
                  (''000C'', Finished False)],
       main_pc = MDone, seen = [2],
       printed = [ErrorLine ''000C'' ''timeout'', FoundLine ''000B''],
       oracle_calls = [0, 1, 2] \<rparr>"

text \<open>
  A run of the same search up to the assignment of line 36 by the task of \<^verbatim>\<open>000B\<close>,
  while the task of \<^verbatim>\<open>000A\<close> has been started and has not made the test of line 26.
\<close>

definition skip_sched :: "event list" where
  "skip_sched =
     [EMain, EMain, EMain, EMain,
      EWork 0, EWork 1, EWork 1, EWork 1, EWork 1, EWork 1, EWork 1]"

definition skip_state :: state where
  "skip_state =
     \<lparr> found_password = True, lock = Some 1, correct_password = None,
       futures = [(''000A'', Running CheckFound), (''000B'', Running SetWinner),
                  (''000C'', Pending)],
       main_pc = MWait, seen = [],
       printed = [],
       oracle_calls = [1] \<rparr>"

text \<open>
  With an oracle that accepts everything, the first task sets the flag while the main
  thread has submitted one password only.
\<close>

definition sub_sched :: "event list" where
  "sub_sched = [EMain, EWork 0, EWork 0, EWork 0, EWork 0, EWork 0, EWork 0]"

definition sub_state :: state where
  "sub_state =
     \<lparr> found_password = True, lock = Some 0, correct_password = None,
       futures = [(''000A'', Running SetWinner)],
       main_pc = MSubmit [''000B'', ''000C''], seen = [],
       printed = [], oracle_calls = [0] \<rparr>"

text \<open>
  The task of \<^verbatim>\<open>000A\<close> is rejected and is about to enter \<^verbatim>\<open>log\<close> when the task of
  \<^verbatim>\<open>000B\<close> sets the flag (\<open>quiet_state\<close>); both tasks then run to their end
  (\<open>won_state\<close>).
\<close>

definition quiet_sched :: "event list" where
  "quiet_sched =
     [EMain, EMain, EMain, EMain,
      EWork 0, EWork 0, EWork 0,
      EWork 1, EWork 1, EWork 1, EWork 1, EWork 1, EWork 1]"

definition quiet_state :: state where
  "quiet_state =
     \<lparr> found_password = True, lock = Some 1, correct_password = None,
       futures = [(''000A'', Running (LogLock (AttemptedLine ''000A''))),
                  (''000B'', Running SetWinner), (''000C'', Pending)],
       main_pc = MWait, seen = [],
       printed = [], oracle_calls = [0, 1] \<rparr>"

definition won_state :: state where
  "won_state =
     \<lparr> found_password = True, lock = None, correct_password = Some ''000B'',
       futures = [(''000A'', Finished False), (''000B'', Finished True), (''000C'', Pending)],
       main_pc = MWait, seen = [],
       printed = [FoundLine ''000B''], oracle_calls = [0, 1] \<rparr>"

text \<open>
  Two passwords and no success: with an oracle that rejects both (\<open>exh_final\<close>), and with
  an oracle that faults on the first and rejects the second (\<open>err_mid\<close> while the faulting
  call is in flight, \<open>err_final\<close> at the end). \<open>exh_sched\<close> is a complete run of both.
\<close>

definition exh_pw :: "string list" where
  "exh_pw = [''AAA'', ''AAB'']"

definition exh_sched :: "event list" where
  "exh_sched =
     [EMain, EMain, EMain,
      EWork 0, EWork 0, EWork 0, EWork 0, EWork 0, EWork 0,
      EWork 1, EWork 1, EWork 1, EWork 1, EWork 1, EWork 1,
      ESee 0, EMain, ESee 1, EMain, EMain, EMain, EMain]"

definition exh_final :: state where
  "exh_final =
     \<lparr> found_password = False, lock = None, correct_password = None,
       futures = [(''AAA'', Finished False), (''AAB'', Finished False)],
       main_pc = MDone, seen = [0, 1],
       printed = [AttemptedLine ''AAA'', AttemptedLine ''AAB''],
       oracle_calls = [0, 1] \<rparr>"

definition err_pw :: "string list" where
  "err_pw = [''X'', ''AAA'']"

definition err_oracle :: "string \<Rightarrow> outcome" where
  "err_oracle c = (if c = ''X'' then Error ''refused'' else Rejected)"

definition err_mid :: state where
  "err_mid =
     \<lparr> found_password = False, lock = None, correct_password = None,
       futures = [(''X'', Running Posting), (''AAA'', Pending)],
       main_pc = MWait, seen = [],
       printed = [], oracle_calls = [0] \<rparr>"

definition err_final :: state where
  "err_final =
     \<lparr> found_password = False, lock = None, correct_password = None,
       futures = [(''X'', Finished False), (''AAA'', Finished False)],
       main_pc = MDone, seen = [0, 1],
       printed = [ErrorLine ''X'' ''refused'', AttemptedLine ''AAA''],
       oracle_calls = [0, 1] \<rparr>"

text \<open>
  The first search again, in another order: the call for \<^verbatim>\<open>000C\<close> faults and its task
  is about to enter \<^verbatim>\<open>log\<close>; the task of \<^verbatim>\<open>000B\<close> then makes its claim; the task of
  \<^verbatim>\<open>000C\<close> enters \<^verbatim>\<open>log\<close> after that.
\<close>

definition supp_sched :: "event list" where
  "supp_sched =
     [EMain, EMain, EMain, EMain,
      EWork 0, EWork 1, EWork 2, EWork 2, EWork 2,
      EWork 1, EWork 1, EWork 1, EWork 1, EWork 1, EWork 1, EWork 1,
      EWork 2, EWork 2, EWork 0,
      ESee 1, EMain, EMain, EMain, EMain, EMain, EMain, EMain]"

definition supp_final :: state where
  "supp_final =
     \<lparr> found_password = True, lock = None, correct_password = Some ''000B'',
       futures = [(''000A'', Finished False), (''000B'', Finished True),
                  (''000C'', Finished False)],
       main_pc = MDone, seen = [1],
       printed = [FoundLine ''000B''],
       oracle_calls = [2, 1] \<rparr>"

section \<open>The password list\<close>

lemma product_length: "length [f x y. x \<leftarrow> xs, y \<leftarrow> ys] = length xs * length ys"
  by (induction xs) simp_all

lemma password_list_length: "length password_list = 26000"
proof -
  have "length password_list = length [0..<1000] * length ascii_uppercase"
    unfolding password_list_def by (rule product_length)
  then show ?thesis by (simp add: ascii_uppercase_def)
qed

lemma pad3_example: "pad3 7 @ ''Z'' = ''007Z''"
  by (simp add: pad3_def digit_char_def)

section \<open>Case analysis of the transitions\<close>

lemma worker_step_cases:
  assumes "worker_step resp i s = Some s'"
  obtains
    (start) p where "i < length (futures s)" and "futures s ! i = (p, Pending)"
      and "running_count (futures s) < max_workers" and "s' = set_pc i CheckFound s"
  | (run) p c where "i < length (futures s)" and "futures s ! i = (p, Running c)"
      and "try_password_step resp i p c s = Some s'"
proof -
  from assms have len: "i < length (futures s)"
    by (simp add: worker_step_def split: if_splits)
  obtain p st where ps: "futures s ! i = (p, st)" by (cases "futures s ! i")
  show thesis
  proof (cases st)
    case Pending
    with assms len ps show thesis
      by (intro start[of p]) (simp_all add: worker_step_def split: if_splits)
  next
    case (Running c)
    with assms len ps show thesis
      by (intro run[of p c]) (simp_all add: worker_step_def)
  next
    case Cancelled
    with assms len ps show thesis by (simp add: worker_step_def)
  next
    case (Finished b)
    with assms len ps show thesis by (simp add: worker_step_def)
  qed
qed

lemma run_step_cases:
  assumes "run_step s = Some s'"
  obtains
    (submit) p ps where "main_pc s = MSubmit (p # ps)"
      and "s' = s\<lparr>futures := futures s @ [(p, Pending)], main_pc := MSubmit ps\<rparr>"
  | (cancel) k where "main_pc s = MCancel k" and "k < length (futures s)"
      and "snd (futures s ! k) = Pending"
      and "s' = s\<lparr>futures := (futures s)[k := (fst (futures s ! k), Cancelled)],
                   main_pc := MCancel (Suc k)\<rparr>"
  | (move) m where "s' = s\<lparr>main_pc := m\<rparr>"
      and "m = MCancel 0 \<longrightarrow> main_pc s = MCheck \<and> found_password s"
      and "\<forall>k. m = MCancel (Suc k) \<longrightarrow> main_pc s = MCancel k"
      and "m = MWait \<longrightarrow> main_pc s = MSubmit [] \<or> (main_pc s = MCheck \<and> \<not> found_password s)"
      and "m = MDone \<longrightarrow> main_pc s = MJoin \<and> list_all (\<lambda>t. is_done (snd t)) (futures s)"
      and "m \<noteq> MCheck" and "\<forall>ps. m \<noteq> MSubmit ps"
proof (cases "main_pc s")
  case (MSubmit ps)
  with assms show thesis
    by (cases ps) (auto intro: submit move)
next
  case MWait
  with assms show thesis by (auto intro!: move[of MShutdown] split: if_splits)
next
  case MCheck
  with assms show thesis
    by (cases "found_password s") (auto intro: move[of "MCancel 0"] move[of MWait])
next
  case (MCancel k)
  show thesis
  proof (cases "k < length (futures s)")
    case False
    with assms MCancel show thesis by (auto intro!: move[of MShutdown])
  next
    case True
    show thesis
    proof (cases "snd (futures s ! k) = Pending")
      case True
      with assms MCancel \<open>k < length (futures s)\<close> show thesis
        by (auto intro: cancel)
    next
      case False
      with assms MCancel \<open>k < length (futures s)\<close> show thesis
        by (auto intro!: move[of "MCancel (Suc k)"])
    qed
  qed
next
  case MShutdown
  with assms show thesis by (auto intro!: move[of MJoin])
next
  case MJoin
  with assms show thesis by (auto intro!: move[of MDone] split: if_splits)
next
  case MDone
  with assms show thesis by simp
qed

section \<open>Preservation of the invariants\<close>

text \<open>
  Each invariant is shown for a transition of the main thread, for a future yielded by
  \<^verbatim>\<open>as_completed\<close>, and for a transition of a pool thread. In the last case the
  invariant is instantiated at the moving task and at the task looked at, and the places
  of the moving task are gone through.
\<close>

lemma inv_lock_main:
  assumes inv: "inv_lock s" and st: "run_step s = Some s'"
  shows "inv_lock s'"
  using st
proof (cases rule: run_step_cases)
  case (submit p ps)
  with inv show ?thesis
    by (auto simp: inv_lock_def nth_append)
next
  case (cancel k)
  from inv cancel(2) have "holds_lock (snd (futures s ! k)) = (lock s = Some k)"
    by (simp add: inv_lock_def)
  with cancel inv show ?thesis
    by (auto simp: inv_lock_def nth_list_update)
next
  case (move m)
  with inv show ?thesis by (simp add: inv_lock_def)
qed

lemma inv_lock_see: "inv_lock s \<Longrightarrow> see_step i s = Some s' \<Longrightarrow> inv_lock s'"
  by (auto simp: inv_lock_def see_step_def split: if_splits)

lemma set_pc_simps [simp]:
  "futures (set_pc i c s) = (futures s)[i := (fst (futures s ! i), Running c)]"
  "found_password (set_pc i c s) = found_password s"
  "lock (set_pc i c s) = lock s"
  "correct_password (set_pc i c s) = correct_password s"
  "main_pc (set_pc i c s) = main_pc s"
  "seen (set_pc i c s) = seen s"
  "printed (set_pc i c s) = printed s"
  "oracle_calls (set_pc i c s) = oracle_calls s"
  by (simp_all add: set_pc_def)

lemma finish_simps [simp]:
  "futures (finish i b s) = (futures s)[i := (fst (futures s ! i), Finished b)]"
  "found_password (finish i b s) = found_password s"
  "lock (finish i b s) = lock s"
  "correct_password (finish i b s) = correct_password s"
  "main_pc (finish i b s) = main_pc s"
  "seen (finish i b s) = seen s"
  "printed (finish i b s) = printed s"
  "oracle_calls (finish i b s) = oracle_calls s"
  by (simp_all add: finish_def)

lemma try_password_step_length:
  "try_password_step resp i p c s = Some s' \<Longrightarrow> length (futures s') = length (futures s)"
  by (cases c) (auto split: if_splits outcome.splits)

lemma inv_lock_worker:
  assumes inv: "inv_lock s" and st: "worker_step resp i s = Some s'"
  shows "inv_lock s'"
  using st
proof (cases rule: worker_step_cases)
  case (start p)
  with inv show ?thesis
    by (auto simp: inv_lock_def nth_list_update)
next
  case (run p c)
  from inv run(1) have Pi: "holds_lock (snd (futures s ! i)) = (lock s = Some i)"
    by (simp add: inv_lock_def)
  have len: "length (futures s') = length (futures s)"
    using run(3) by (rule try_password_step_length)
  have "holds_lock (snd (futures s' ! k)) = (lock s' = Some k)" if k: "k < length (futures s)" for k
  proof -
    from inv k have Pk: "holds_lock (snd (futures s ! k)) = (lock s = Some k)"
      by (simp add: inv_lock_def)
    show ?thesis
      using run Pi Pk k
      by (cases c; cases "k = i") (auto split: if_splits outcome.splits)
  qed
  moreover have "k < length (futures s)" if "lock s' = Some k" for k
  proof -
    from inv have G: "lock s = Some k \<Longrightarrow> k < length (futures s)"
      by (simp add: inv_lock_def)
    show ?thesis
      using run Pi G that
      by (cases c) (auto split: if_splits outcome.splits)
  qed
  ultimately show ?thesis
    by (simp add: inv_lock_def len)
qed

lemma inv_found_main:
  assumes inv: "inv_found s" and st: "run_step s = Some s'"
  shows "inv_found s'"
  using st
proof (cases rule: run_step_cases)
  case (submit p ps)
  have "\<exists>k < Suc (length (futures s)). claimed (snd ((futures s @ [(p, Pending)]) ! k))"
    if "found_password s"
  proof -
    from inv that obtain k where "k < length (futures s)" "claimed (snd (futures s ! k))"
      unfolding inv_found_def by blast
    then show ?thesis by (auto simp: nth_append intro!: exI[of _ k])
  qed
  with inv submit show ?thesis
    by (auto simp: inv_found_def nth_append)
next
  case (cancel k)
  have "\<exists>j < length (futures s). claimed (snd ((futures s)[k := (fst (futures s ! k), Cancelled)] ! j))"
    if "found_password s"
  proof -
    from inv that obtain j where j: "j < length (futures s)" "claimed (snd (futures s ! j))"
      unfolding inv_found_def by blast
    with cancel(3) have "j \<noteq> k" by auto
    with j show ?thesis by (auto simp: nth_list_update intro!: exI[of _ j])
  qed
  with inv cancel show ?thesis
    by (auto simp: inv_found_def nth_list_update)
next
  case (move m)
  with inv show ?thesis by (simp add: inv_found_def)
qed

lemma inv_found_see: "inv_found s \<Longrightarrow> see_step i s = Some s' \<Longrightarrow> inv_found s'"
  by (auto simp: inv_found_def see_step_def split: if_splits)

lemma inv_found_worker:
  assumes inv: "inv_found s" and lk: "inv_lock s" and st: "worker_step resp i s = Some s'"
  shows "inv_found s'"
  using st
proof (cases rule: worker_step_cases)
  case (start p)
  have "\<exists>k < length (futures s). claimed (snd ((futures s)[i := (p, Running CheckFound)] ! k))"
    if "found_password s"
  proof -
    from inv that obtain k where k: "k < length (futures s)" "claimed (snd (futures s ! k))"
      unfolding inv_found_def by blast
    with start(2) have "k \<noteq> i" by auto
    with k show ?thesis by (auto simp: nth_list_update intro!: exI[of _ k])
  qed
  with inv start show ?thesis
    by (auto simp: inv_found_def nth_list_update)
next
  case (run p c)
  have len: "length (futures s') = length (futures s)"
    using run(3) by (rule try_password_step_length)
  from lk run(1) have Li: "holds_lock (snd (futures s ! i)) = (lock s = Some i)"
    by (simp add: inv_lock_def)
  from inv run(1) have Ci: "claimed (snd (futures s ! i)) \<longrightarrow> found_password s"
    and Ui: "saw_unfound (snd (futures s ! i)) \<longrightarrow> \<not> found_password s"
    by (simp_all add: inv_found_def)
  have A: "claimed (snd (futures s' ! k)) \<longrightarrow> found_password s'"
    and B: "saw_unfound (snd (futures s' ! k)) \<longrightarrow> \<not> found_password s'"
    if k: "k < length (futures s)" for k
  proof -
    from lk k have Lk: "holds_lock (snd (futures s ! k)) = (lock s = Some k)"
      by (simp add: inv_lock_def)
    from inv k have Ck: "claimed (snd (futures s ! k)) \<longrightarrow> found_password s"
      and Uk: "saw_unfound (snd (futures s ! k)) \<longrightarrow> \<not> found_password s"
      by (simp_all add: inv_found_def)
    show "claimed (snd (futures s' ! k)) \<longrightarrow> found_password s'"
      using run Ci Ck k
      by (cases c; cases "k = i") (auto split: if_splits outcome.splits)
    show "saw_unfound (snd (futures s' ! k)) \<longrightarrow> \<not> found_password s'"
      using run Ui Uk Li Lk k
      by (cases c; cases "k = i"; cases "snd (futures s ! k)" rule: saw_unfound.cases)
         (auto split: if_splits outcome.splits)
  qed
  have C: "\<exists>k < length (futures s). claimed (snd (futures s' ! k))" if f: "found_password s'"
  proof (cases "found_password s")
    case True
    with inv obtain k where k: "k < length (futures s)" "claimed (snd (futures s ! k))"
      unfolding inv_found_def by blast
    have "claimed (snd (futures s' ! k))"
      using run k Ui True
      by (cases c; cases "k = i") (auto split: if_splits outcome.splits)
    with k show ?thesis by blast
  next
    case False
    have "claimed (snd (futures s' ! i))"
      using run f False by (cases c) (auto split: if_splits outcome.splits)
    with run(1) show ?thesis by blast
  qed
  from A B C show ?thesis
    by (simp add: inv_found_def len)
qed

lemma won_claimed: "won st \<Longrightarrow> claimed st"
  by (cases st rule: won.cases) simp_all

lemma inv_unique_main:
  assumes inv: "inv_unique s" and st: "run_step s = Some s'"
  shows "inv_unique s'"
  using st
proof (cases rule: run_step_cases)
  case (submit p ps)
  with inv show ?thesis
    by (auto simp: inv_unique_def nth_append)
next
  case (cancel k)
  with inv show ?thesis
    by (auto simp: inv_unique_def nth_list_update split: if_splits)
next
  case (move m)
  with inv show ?thesis by (simp add: inv_unique_def)
qed

lemma inv_unique_see: "inv_unique s \<Longrightarrow> see_step i s = Some s' \<Longrightarrow> inv_unique s'"
  by (auto simp: inv_unique_def see_step_def split: if_splits)

lemma inv_unique_worker:
  assumes inv: "inv_unique s" and fd: "inv_found s" and st: "worker_step resp i s = Some s'"
  shows "inv_unique s'"
  using st
proof (cases rule: worker_step_cases)
  case (start p)
  with inv show ?thesis
    by (auto simp: inv_unique_def nth_list_update split: if_splits)
next
  case (run p c)
  have len: "length (futures s') = length (futures s)"
    using run(3) by (rule try_password_step_length)
  from fd run(1) have Ui: "saw_unfound (snd (futures s ! i)) \<longrightarrow> \<not> found_password s"
    by (simp add: inv_found_def)
  have "k = j" if k: "k < length (futures s)" and j: "j < length (futures s)"
    and ck: "claimed (snd (futures s' ! k))" and cj: "claimed (snd (futures s' ! j))" for k j
  proof -
    from fd k j have Ck: "claimed (snd (futures s ! k)) \<longrightarrow> found_password s"
      and Cj: "claimed (snd (futures s ! j)) \<longrightarrow> found_password s"
      by (simp_all add: inv_found_def)
    from inv k j run(1) have
      U: "claimed (snd (futures s ! k)) \<and> claimed (snd (futures s ! j)) \<longrightarrow> k = j"
      and Uk: "claimed (snd (futures s ! k)) \<and> claimed (snd (futures s ! i)) \<longrightarrow> k = i"
      and Uj: "claimed (snd (futures s ! j)) \<and> claimed (snd (futures s ! i)) \<longrightarrow> j = i"
      by (simp_all add: inv_unique_def)
    show ?thesis
      using run Ui Ck Cj U Uk Uj k j ck cj
      by (cases c; cases "k = i"; cases "j = i") (auto split: if_splits outcome.splits)
  qed
  then show ?thesis
    by (simp add: inv_unique_def len)
qed

lemma inv_winner_main:
  assumes inv: "inv_winner s" and st: "run_step s = Some s'"
  shows "inv_winner s'"
  using st
proof (cases rule: run_step_cases)
  case (submit p ps)
  have "\<exists>k < Suc (length (futures s)). won (snd ((futures s @ [(p, Pending)]) ! k))"
    if "correct_password s \<noteq> None"
  proof -
    from inv that obtain k where "k < length (futures s)" "won (snd (futures s ! k))"
      unfolding inv_winner_def by blast
    then show ?thesis by (auto simp: nth_append intro!: exI[of _ k])
  qed
  with inv submit show ?thesis
    by (auto simp: inv_winner_def nth_append)
next
  case (cancel k)
  have "\<exists>j < length (futures s). won (snd ((futures s)[k := (fst (futures s ! k), Cancelled)] ! j))"
    if "correct_password s \<noteq> None"
  proof -
    from inv that obtain j where j: "j < length (futures s)" "won (snd (futures s ! j))"
      unfolding inv_winner_def by blast
    with cancel(3) have "j \<noteq> k" by auto
    with j show ?thesis by (auto simp: nth_list_update intro!: exI[of _ j])
  qed
  with inv cancel show ?thesis
    by (auto simp: inv_winner_def nth_list_update)
next
  case (move m)
  with inv show ?thesis by (simp add: inv_winner_def)
qed

lemma inv_winner_see: "inv_winner s \<Longrightarrow> see_step i s = Some s' \<Longrightarrow> inv_winner s'"
  by (auto simp: inv_winner_def see_step_def split: if_splits)

lemma inv_winner_worker:
  assumes inv: "inv_winner s" and un: "inv_unique s" and st: "worker_step resp i s = Some s'"
  shows "inv_winner s'"
  using st
proof (cases rule: worker_step_cases)
  case (start p)
  have "\<exists>k < length (futures s). won (snd ((futures s)[i := (p, Running CheckFound)] ! k))"
    if "correct_password s \<noteq> None"
  proof -
    from inv that obtain k where k: "k < length (futures s)" "won (snd (futures s ! k))"
      unfolding inv_winner_def by blast
    with start(2) have "k \<noteq> i" by auto
    with k show ?thesis by (auto simp: nth_list_update intro!: exI[of _ k])
  qed
  with inv start show ?thesis
    by (auto simp: inv_winner_def nth_list_update)
next
  case (run p c)
  have len: "length (futures s') = length (futures s)"
    using run(3) by (rule try_password_step_length)
  have A: "won (snd (futures s' ! k)) \<longrightarrow> correct_password s' = Some (fst (futures s' ! k))"
    if k: "k < length (futures s)" for k
  proof -
    from inv k have Wk: "won (snd (futures s ! k)) \<longrightarrow> correct_password s = Some (fst (futures s ! k))"
      by (simp add: inv_winner_def)
    from un k run(1) have Uk: "claimed (snd (futures s ! k)) \<and> claimed (snd (futures s ! i)) \<longrightarrow> k = i"
      by (simp add: inv_unique_def)
    have wc: "won (snd (futures s ! k)) \<longrightarrow> claimed (snd (futures s ! k))"
      by (simp add: won_claimed)
    show ?thesis
      using run Wk Uk wc k
      by (cases c; cases "k = i") (auto split: if_splits outcome.splits)
  qed
  have B: "\<exists>k < length (futures s). won (snd (futures s' ! k))" if f: "correct_password s' \<noteq> None"
  proof (cases "correct_password s \<noteq> None")
    case True
    with inv obtain k where k: "k < length (futures s)" "won (snd (futures s ! k))"
      unfolding inv_winner_def by blast
    have "won (snd (futures s' ! k))"
      using run k
      by (cases c; cases "k = i") (auto split: if_splits outcome.splits)
    with k show ?thesis by blast
  next
    case False
    have "won (snd (futures s' ! i))"
      using run f False by (cases c) (auto split: if_splits outcome.splits)
    with run(1) show ?thesis by blast
  qed
  from A B show ?thesis
    by (simp add: inv_winner_def len)
qed

lemma inv_resp_main:
  assumes inv: "inv_resp resp s" and st: "run_step s = Some s'"
  shows "inv_resp resp s'"
  using st
proof (cases rule: run_step_cases)
  case (submit p ps)
  with inv show ?thesis
    by (auto simp: inv_resp_def nth_append)
next
  case (cancel k)
  with inv show ?thesis
    by (auto simp: inv_resp_def nth_list_update)
next
  case (move m)
  with inv show ?thesis by (simp add: inv_resp_def)
qed

lemma inv_resp_see: "inv_resp resp s \<Longrightarrow> see_step i s = Some s' \<Longrightarrow> inv_resp resp s'"
  by (auto simp: inv_resp_def see_step_def split: if_splits)

lemma inv_resp_worker:
  assumes inv: "inv_resp resp s" and st: "worker_step resp i s = Some s'"
  shows "inv_resp resp s'"
  using st
proof (cases rule: worker_step_cases)
  case (start p)
  with inv show ?thesis
    by (auto simp: inv_resp_def nth_list_update)
next
  case (run p c)
  have len: "length (futures s') = length (futures s)"
    using run(3) by (rule try_password_step_length)
  have "resp_ok resp k (fst (futures s' ! k)) (snd (futures s' ! k))"
    if k: "k < length (futures s)" for k
  proof -
    from inv k have Rk: "resp_ok resp k (fst (futures s ! k)) (snd (futures s ! k))"
      by (simp add: inv_resp_def)
    show ?thesis
      using run Rk k
      by (cases c; cases "k = i") (auto split: if_splits outcome.splits)
  qed
  then show ?thesis
    by (simp add: inv_resp_def len)
qed

lemma found_mono_worker:
  "worker_step resp i s = Some s' \<Longrightarrow> found_password s \<Longrightarrow> found_password s'"
  by (erule worker_step_cases, simp, rename_tac p c, case_tac c)
     (auto split: if_splits outcome.splits)

lemma inv_cancel_main:
  assumes inv: "inv_cancel s" and st: "run_step s = Some s'"
  shows "inv_cancel s'"
  using st
proof (cases rule: run_step_cases)
  case (submit p ps)
  with inv show ?thesis
    by (auto simp: inv_cancel_def nth_append)
next
  case (cancel k)
  with inv show ?thesis
    by (auto simp: inv_cancel_def nth_list_update)
next
  case (move m)
  show ?thesis
  proof (cases m)
    case (MCancel j)
    with move inv show ?thesis by (cases j) (auto simp: inv_cancel_def)
  qed (use move inv in \<open>auto simp: inv_cancel_def\<close>)
qed

lemma inv_cancel_see: "inv_cancel s \<Longrightarrow> see_step i s = Some s' \<Longrightarrow> inv_cancel s'"
  by (auto simp: inv_cancel_def see_step_def split: if_splits)

lemma inv_cancel_worker:
  assumes inv: "inv_cancel s" and st: "worker_step resp i s = Some s'"
  shows "inv_cancel s'"
  using st
proof (cases rule: worker_step_cases)
  case (start p)
  with inv show ?thesis
    by (auto simp: inv_cancel_def nth_list_update)
next
  case (run p c)
  have len: "length (futures s') = length (futures s)"
    using run(3) by (rule try_password_step_length)
  have mono: "found_password s \<longrightarrow> found_password s'"
    using st by (simp add: found_mono_worker)
  have mp: "main_pc s' = main_pc s"
    using run(3) by (cases c) (auto split: if_splits outcome.splits)
  have "snd (futures s' ! k) = Cancelled \<longrightarrow> found_password s'"
    if k: "k < length (futures s)" for k
  proof -
    from inv k have Ck: "snd (futures s ! k) = Cancelled \<longrightarrow> found_password s"
      by (simp add: inv_cancel_def)
    show ?thesis
      using run Ck k
      by (cases c; cases "k = i") (auto split: if_splits outcome.splits)
  qed
  moreover from inv mono have "\<forall>j. main_pc s = MCancel j \<longrightarrow> found_password s'"
    by (simp add: inv_cancel_def)
  ultimately show ?thesis
    by (simp add: inv_cancel_def len mp)
qed

lemma map_fst_update: "map fst (fs[i := (fst (fs ! i), x)]) = map fst fs"
  by (cases "i < length fs") (auto simp: list_eq_iff_nth_eq nth_list_update)

lemma try_password_step_fst:
  "try_password_step resp i p c s = Some s' \<Longrightarrow> map fst (futures s') = map fst (futures s)"
  by (cases c) (auto simp: map_fst_update split: if_splits outcome.splits)

lemma try_password_step_main:
  "try_password_step resp i p c s = Some s' \<Longrightarrow> main_pc s' = main_pc s \<and> seen s' = seen s"
  by (cases c) (auto split: if_splits outcome.splits)

lemma inv_submit_main: "inv_submit pw s \<Longrightarrow> run_step s = Some s' \<Longrightarrow> inv_submit pw s'"
  by (cases "main_pc s")
     (auto simp: inv_submit_def map_fst_update split: list.splits if_splits)

lemma inv_submit_see: "inv_submit pw s \<Longrightarrow> see_step i s = Some s' \<Longrightarrow> inv_submit pw s'"
  by (auto simp: inv_submit_def see_step_def split: if_splits)

lemma inv_submit_worker:
  assumes inv: "inv_submit pw s" and st: "worker_step resp i s = Some s'"
  shows "inv_submit pw s'"
  using st
proof (cases rule: worker_step_cases)
  case (start p)
  then have "fst (futures s ! i) = p" by simp
  then have "map fst ((futures s)[i := (p, Running CheckFound)]) = map fst (futures s)"
    using map_fst_update[of "futures s" i "Running CheckFound"] by simp
  with inv start show ?thesis
    by (simp add: inv_submit_def split: mpc.splits)
next
  case (run p c)
  from run(3) have "map fst (futures s') = map fst (futures s)"
    and "main_pc s' = main_pc s \<and> seen s' = seen s"
    by (rule try_password_step_fst, rule try_password_step_main)
  with inv show ?thesis by (simp add: inv_submit_def split: mpc.splits)
qed

lemma inv_calls_main:
  assumes inv: "inv_calls s" and st: "run_step s = Some s'"
  shows "inv_calls s'"
  using st
proof (cases rule: run_step_cases)
  case (submit p ps)
  with inv show ?thesis
    by (auto simp: inv_calls_def nth_append)
next
  case (cancel k)
  with inv show ?thesis
    by (auto simp: inv_calls_def nth_list_update)
next
  case (move m)
  with inv show ?thesis by (simp add: inv_calls_def)
qed

lemma inv_calls_see: "inv_calls s \<Longrightarrow> see_step i s = Some s' \<Longrightarrow> inv_calls s'"
  by (auto simp: inv_calls_def see_step_def split: if_splits)

lemma inv_calls_worker:
  assumes inv: "inv_calls s" and st: "worker_step resp i s = Some s'"
  shows "inv_calls s'"
  using st
proof (cases rule: worker_step_cases)
  case (start p)
  with inv show ?thesis
    by (auto simp: inv_calls_def nth_list_update)
next
  case (run p c)
  have len: "length (futures s') = length (futures s)"
    using run(3) by (rule try_password_step_length)
  from inv have d: "distinct (oracle_calls s)"
    and B: "\<And>j. j \<in> set (oracle_calls s) \<Longrightarrow> j < length (futures s) \<and> called (snd (futures s ! j))"
    by (simp_all add: inv_calls_def)
  from B[of i] run(2) have ni: "c = CheckFound \<Longrightarrow> i \<notin> set (oracle_calls s)"
    by auto
  have D: "distinct (oracle_calls s')"
    using run(3) d ni by (cases c) (auto split: if_splits outcome.splits)
  have E: "j < length (futures s) \<and> called (snd (futures s' ! j))"
    if j: "j \<in> set (oracle_calls s')" for j
  proof (cases "j = i")
    case True
    show ?thesis
      using run True by (cases c) (auto split: if_splits outcome.splits)
  next
    case False
    with run(3) j have "j \<in> set (oracle_calls s)"
      by (cases c) (auto split: if_splits outcome.splits)
    from B[OF this] run False show ?thesis
      by (cases c) (auto split: if_splits outcome.splits)
  qed
  have F: "called (snd (futures s' ! k)) \<longrightarrow>
      k \<in> set (oracle_calls s') \<or> (found_password s' \<and> snd (futures s' ! k) = Finished False)"
    if k: "k < length (futures s)" for k
  proof -
    from inv k have Ck: "called (snd (futures s ! k)) \<longrightarrow>
        k \<in> set (oracle_calls s) \<or> (found_password s \<and> snd (futures s ! k) = Finished False)"
      by (simp add: inv_calls_def)
    show ?thesis
      using run Ck k
      by (cases c; cases "k = i") (auto split: if_splits outcome.splits)
  qed
  from D E F show ?thesis
    by (simp add: inv_calls_def len)
qed

lemma inv_success_main:
  assumes inv: "inv_success resp s" and st: "run_step s = Some s'"
  shows "inv_success resp s'"
  using st
proof (cases rule: run_step_cases)
  case (submit p ps)
  with inv show ?thesis
    by (auto simp: inv_success_def nth_append)
next
  case (cancel k)
  with inv show ?thesis
    by (auto simp: inv_success_def nth_list_update)
next
  case (move m)
  with inv show ?thesis by (simp add: inv_success_def)
qed

lemma inv_success_see: "inv_success resp s \<Longrightarrow> see_step i s = Some s' \<Longrightarrow> inv_success resp s'"
  by (auto simp: inv_success_def see_step_def split: if_splits)

lemma inv_success_worker:
  assumes inv: "inv_success resp s" and rs: "inv_resp resp s"
    and st: "worker_step resp i s = Some s'"
  shows "inv_success resp s'"
  using st
proof (cases rule: worker_step_cases)
  case (start p)
  with inv show ?thesis
    by (auto simp: inv_success_def nth_list_update)
next
  case (run p c)
  have len: "length (futures s') = length (futures s)"
    using run(3) by (rule try_password_step_length)
  from rs run(1) have Ri: "resp_ok resp i (fst (futures s ! i)) (snd (futures s ! i))"
    by (simp add: inv_resp_def)
  have "resp k = Success \<and> snd (futures s' ! k) = Finished False \<longrightarrow> found_password s'"
    if k: "k < length (futures s)" for k
  proof -
    from inv k have Sk: "resp k = Success \<and> snd (futures s ! k) = Finished False \<longrightarrow> found_password s"
      by (simp add: inv_success_def)
    show ?thesis
      using run Sk Ri k
      by (cases c; cases "k = i") (auto split: if_splits outcome.splits)
  qed
  then show ?thesis
    by (simp add: inv_success_def len)
qed

lemma inv_error_main:
  assumes inv: "inv_error resp s" and st: "run_step s = Some s'"
  shows "inv_error resp s'"
  using st
proof (cases rule: run_step_cases)
  case (submit p ps)
  with inv show ?thesis
    by (auto simp: inv_error_def nth_append)
next
  case (cancel k)
  with inv show ?thesis
    by (auto simp: inv_error_def nth_list_update)
next
  case (move m)
  with inv show ?thesis by (simp add: inv_error_def)
qed

lemma inv_error_see: "inv_error resp s \<Longrightarrow> see_step i s = Some s' \<Longrightarrow> inv_error resp s'"
  by (auto simp: inv_error_def see_step_def split: if_splits)

lemma inv_error_worker:
  assumes inv: "inv_error resp s" and rs: "inv_resp resp s"
    and st: "worker_step resp i s = Some s'"
  shows "inv_error resp s'"
  using st
proof (cases rule: worker_step_cases)
  case (start p)
  with inv show ?thesis
    by (auto simp: inv_error_def nth_list_update)
next
  case (run p c)
  have len: "length (futures s') = length (futures s)"
    using run(3) by (rule try_password_step_length)
  from rs run(1) have Ri: "resp_ok resp i (fst (futures s ! i)) (snd (futures s ! i))"
    by (simp add: inv_resp_def)
  have "resp k = Error e \<and> snd (futures s' ! k) = Finished False \<and> \<not> found_password s' \<longrightarrow>
        ErrorLine (fst (futures s' ! k)) e \<in> set (printed s')"
    if k: "k < length (futures s)" for k e
  proof -
    from inv k have Ek: "resp k = Error e \<and> snd (futures s ! k) = Finished False
        \<and> \<not> found_password s \<longrightarrow> ErrorLine (fst (futures s ! k)) e \<in> set (printed s)"
      by (simp add: inv_error_def)
    show ?thesis
      using run Ek Ri k
      by (cases c; cases "k = i") (auto split: if_splits outcome.splits)
  qed
  then show ?thesis
    by (simp add: inv_error_def len)
qed

lemma running_count_append [simp]:
  "running_count (fs @ [(p, x)]) = running_count fs + (if is_running x then 1 else 0)"
  by (simp add: running_count_def)

lemma running_count_update:
  "i < length fs \<Longrightarrow>
   running_count (fs[i := (p, x)]) + (if is_running (snd (fs ! i)) then 1 else 0)
   = running_count fs + (if is_running x then 1 else 0)"
proof (induction fs arbitrary: i)
  case Nil
  then show ?case by simp
next
  case (Cons a fs)
  show ?case
  proof (cases i)
    case 0
    then show ?thesis by (simp add: running_count_def)
  next
    case (Suc j)
    with Cons.prems have "j < length fs" by simp
    from Cons.IH[OF this] Suc show ?thesis by (simp add: running_count_def)
  qed
qed

lemma inv_workers_main: "inv_workers s \<Longrightarrow> run_step s = Some s' \<Longrightarrow> inv_workers s'"
proof (erule run_step_cases, goal_cases)
  case (1 p ps)
  then show ?case by (simp add: inv_workers_def)
next
  case (2 k)
  with running_count_update[of k "futures s" "fst (futures s ! k)" Cancelled]
  show ?case by (simp add: inv_workers_def)
next
  case (3 m)
  then show ?case by (simp add: inv_workers_def)
qed

lemma inv_workers_see: "inv_workers s \<Longrightarrow> see_step i s = Some s' \<Longrightarrow> inv_workers s'"
  by (auto simp: inv_workers_def see_step_def split: if_splits)

lemma try_password_step_running:
  assumes "try_password_step resp i p c s = Some s'" and "i < length (futures s)"
    and "futures s ! i = (p, Running c)"
  shows "running_count (futures s') \<le> running_count (futures s)"
proof -
  from assms(1) obtain x where fs: "futures s' = (futures s)[i := (p, x)]"
    using assms(3) by (cases c) (auto split: if_splits outcome.splits)
  from running_count_update[OF assms(2), of p x] assms(3) fs show ?thesis
    by (simp split: if_splits)
qed

lemma inv_workers_worker:
  assumes inv: "inv_workers s" and st: "worker_step resp i s = Some s'"
  shows "inv_workers s'"
  using st
proof (cases rule: worker_step_cases)
  case (start p)
  from running_count_update[OF start(1), of p "Running CheckFound"] start inv
  show ?thesis by (simp add: inv_workers_def)
next
  case (run p c)
  from try_password_step_running[OF run(3) run(1) run(2)] inv
  show ?thesis by (simp add: inv_workers_def)
qed

lemma in_flight_le_running: "in_flight s \<le> running_count (futures s)"
proof -
  have "length (filter (\<lambda>t. snd t = Running Posting) fs)
      \<le> length (filter (\<lambda>t. is_running (snd t)) fs)" for fs :: "(string \<times> fstate) list"
    by (induction fs) auto
  then show ?thesis by (simp add: in_flight_def running_count_def)
qed

lemma inv_out_frame:
  assumes inv: "inv_out s" and pr: "printed s' = printed s"
    and len: "length (futures s') = length (futures s)"
    and eq: "\<And>k. k < length (futures s) \<Longrightarrow>
        (snd (futures s' ! k) = Finished True) = (snd (futures s ! k) = Finished True)
        \<and> fst (futures s' ! k) = fst (futures s ! k)"
  shows "inv_out s'"
proof -
  have A: "printed s' \<noteq> [] \<and> last (printed s') = FoundLine (fst (futures s' ! k))
      \<and> no_win (butlast (printed s'))"
    if "k < length (futures s')" and "snd (futures s' ! k) = Finished True" for k
  proof -
    from that len eq[of k] have "k < length (futures s)" "snd (futures s ! k) = Finished True"
      "fst (futures s' ! k) = fst (futures s ! k)" by simp_all
    with inv pr show ?thesis by (simp add: inv_out_def)
  qed
  have B: "(\<exists>k < length (futures s'). snd (futures s' ! k) = Finished True) \<or> no_win (printed s')"
  proof (cases "\<exists>k < length (futures s). snd (futures s ! k) = Finished True")
    case True
    then obtain k where k: "k < length (futures s)" "snd (futures s ! k) = Finished True" by blast
    with eq[of k] len have "k < length (futures s') \<and> snd (futures s' ! k) = Finished True" by simp
    then show ?thesis by blast
  next
    case False
    with inv pr show ?thesis by (auto simp: inv_out_def)
  qed
  from A B show ?thesis unfolding inv_out_def by blast
qed

lemma inv_out_main:
  assumes inv: "inv_out s" and st: "run_step s = Some s'"
  shows "inv_out s'"
  using st
proof (cases rule: run_step_cases)
  case (submit p ps)
  have A: "printed s' \<noteq> [] \<and> last (printed s') = FoundLine (fst (futures s' ! k))
      \<and> no_win (butlast (printed s'))"
    if "k < length (futures s')" and "snd (futures s' ! k) = Finished True" for k
  proof -
    from that submit have "k < length (futures s)"
      by (cases "k = length (futures s)") (auto simp: nth_append)
    with that submit inv show ?thesis by (simp add: inv_out_def nth_append)
  qed
  have B: "(\<exists>k < length (futures s'). snd (futures s' ! k) = Finished True) \<or> no_win (printed s')"
  proof (cases "\<exists>k < length (futures s). snd (futures s ! k) = Finished True")
    case True
    then obtain k where k: "k < length (futures s)" "snd (futures s ! k) = Finished True" by blast
    with submit have "k < length (futures s') \<and> snd (futures s' ! k) = Finished True"
      by (simp add: nth_append)
    then show ?thesis by blast
  next
    case False
    with inv submit show ?thesis by (auto simp: inv_out_def)
  qed
  from A B show ?thesis unfolding inv_out_def by blast
next
  case (cancel k)
  show ?thesis
  proof (rule inv_out_frame[OF inv])
    fix j assume "j < length (futures s)"
    with cancel show "(snd (futures s' ! j) = Finished True) = (snd (futures s ! j) = Finished True)
        \<and> fst (futures s' ! j) = fst (futures s ! j)"
      by (cases "j = k") simp_all
  qed (simp_all add: cancel)
next
  case (move m)
  with inv show ?thesis by (simp add: inv_out_def)
qed

lemma inv_out_see: "inv_out s \<Longrightarrow> see_step i s = Some s' \<Longrightarrow> inv_out s'"
  by (auto simp: inv_out_def see_step_def split: if_splits)

lemma log_line_not_found: "log_line_ok resp k p m \<Longrightarrow> \<not> is_found_line m"
  by (cases "resp k") auto

lemma inv_out_worker:
  assumes inv: "inv_out s" and un: "inv_unique s" and fd: "inv_found s"
    and rs: "inv_resp resp s" and st: "worker_step resp i s = Some s'"
  shows "inv_out s'"
  using st
proof (cases rule: worker_step_cases)
  case (start p)
  show ?thesis
  proof (rule inv_out_frame[OF inv])
    fix j assume "j < length (futures s)"
    with start show "(snd (futures s' ! j) = Finished True) = (snd (futures s ! j) = Finished True)
        \<and> fst (futures s' ! j) = fst (futures s ! j)"
      by (cases "j = i") simp_all
  qed (simp_all add: start)
next
  case (run p c)
  have len: "length (futures s') = length (futures s)"
    using run(3) by (rule try_password_step_length)
  have none_won: "snd (futures s ! k) \<noteq> Finished True"
    if "claimed (Running c) \<or> \<not> found_password s" and k: "k < length (futures s)" for k
  proof
    assume ft: "snd (futures s ! k) = Finished True"
    from fd k ft have "found_password s" by (simp add: inv_found_def)
    with that have "claimed (Running c)" by blast
    with un k run(1,2) ft have "k = i" by (simp add: inv_unique_def)
    with ft run(2) show False by simp
  qed
  have no_win_if: "no_win (printed s)" if "claimed (Running c) \<or> \<not> found_password s"
  proof -
    from none_won[OF that] have "\<not> (\<exists>k < length (futures s). snd (futures s ! k) = Finished True)"
      by blast
    with inv show ?thesis unfolding inv_out_def by blast
  qed
  show ?thesis
  proof (cases "c = PrintWin \<or> (\<exists>m. c = LogPrint m)")
    case False
    have pr: "printed s' = printed s"
      using run(3) False by (cases c) (auto split: if_splits outcome.splits)
    show ?thesis
    proof (rule inv_out_frame[OF inv pr len])
      fix k assume "k < length (futures s)"
      with run False
      show "(snd (futures s' ! k) = Finished True) = (snd (futures s ! k) = Finished True)
          \<and> fst (futures s' ! k) = fst (futures s ! k)"
        by (cases c; cases "k = i") (auto split: if_splits outcome.splits)
    qed
  next
    case True
    then consider (win) "c = PrintWin" | (lg) m where "c = LogPrint m" by blast
    then show ?thesis
    proof cases
      case win
      with run(3) have s': "s' = finish i True (s\<lparr>printed := printed s @ [FoundLine p], lock := None\<rparr>)"
        by simp
      from win have nw: "no_win (printed s)" by (simp add: no_win_if)
      have only: "k = i" if "k < length (futures s)" "snd (futures s' ! k) = Finished True" for k
        using that none_won[of k] win s' run(1) by (cases "k = i") simp_all
      have A: "printed s' \<noteq> [] \<and> last (printed s') = FoundLine (fst (futures s' ! k))
          \<and> no_win (butlast (printed s'))"
        if "k < length (futures s')" and "snd (futures s' ! k) = Finished True" for k
      proof -
        from that len only have "k = i" by simp
        with s' run(1,2) nw show ?thesis by simp
      qed
      from run(1) s' have B: "i < length (futures s') \<and> snd (futures s' ! i) = Finished True"
        by simp
      from A B show ?thesis unfolding inv_out_def by blast
    next
      case (lg m)
      with run(3) have s': "s' = finish i False (s\<lparr>printed := printed s @ [m], lock := None\<rparr>)"
        by simp
      from fd run(1,2) lg have nf: "\<not> found_password s" by (simp add: inv_found_def)
      then have nw: "no_win (printed s)" by (simp add: no_win_if)
      from rs run(1) have "resp_ok resp i (fst (futures s ! i)) (snd (futures s ! i))"
        by (simp add: inv_resp_def)
      with run(2) lg have "log_line_ok resp i p m" by simp
      then have m: "\<not> is_found_line m" by (rule log_line_not_found)
      have none: "snd (futures s' ! k) \<noteq> Finished True" if "k < length (futures s')" for k
        using that none_won[of k] nf s' run(1) len by (cases "k = i") simp_all
      from nw m s' have "no_win (printed s')" by (simp add: no_win_def)
      with none show ?thesis unfolding inv_out_def by blast
    qed
  qed
qed

lemma inv_done_main:
  assumes inv: "inv_done s" and st: "run_step s = Some s'"
  shows "inv_done s'"
  using st
proof (cases rule: run_step_cases)
  case (submit p ps)
  then show ?thesis by (simp add: inv_done_def)
next
  case (cancel k)
  then show ?thesis by (simp add: inv_done_def)
next
  case (move m)
  with inv show ?thesis by (cases "m = MDone") (auto simp: inv_done_def list_all_length)
qed

lemma inv_done_see: "inv_done s \<Longrightarrow> see_step i s = Some s' \<Longrightarrow> inv_done s'"
  by (auto simp: inv_done_def see_step_def split: if_splits)

lemma inv_done_worker:
  assumes inv: "inv_done s" and st: "worker_step resp i s = Some s'"
  shows "inv_done s'"
proof -
  have "main_pc s \<noteq> MDone"
  proof
    assume "main_pc s = MDone"
    with inv have d: "\<forall>k < length (futures s). is_done (snd (futures s ! k))"
      by (simp add: inv_done_def)
    from st show False
    proof (cases rule: worker_step_cases)
      case (start p)
      with d show False by auto
    next
      case (run p c)
      with d show False by auto
    qed
  qed
  moreover from st have "main_pc s' = main_pc s"
  proof (cases rule: worker_step_cases)
    case (start p)
    then show ?thesis by simp
  next
    case (run p c)
    then show ?thesis by (simp add: try_password_step_main)
  qed
  ultimately show ?thesis by (simp add: inv_done_def)
qed

subsection \<open>All invariants, along a run\<close>

lemma reach_inv_init: "reach_inv resp pw (init pw)"
  by (simp add: reach_inv_def init_def inv_lock_def inv_found_def inv_unique_def inv_winner_def
      inv_resp_def inv_cancel_def inv_submit_def inv_calls_def inv_success_def inv_error_def
      inv_workers_def inv_out_def inv_done_def running_count_def no_win_def)

lemma reach_inv_step:
  assumes inv: "reach_inv resp pw s" and st: "step resp e s = Some s'"
  shows "reach_inv resp pw s'"
proof (cases e)
  case EMain
  with st have w: "run_step s = Some s'" by simp
  from inv have a: "inv_lock s" "inv_found s" "inv_unique s" "inv_winner s" "inv_resp resp s"
     "inv_cancel s" "inv_submit pw s" "inv_calls s" "inv_success resp s"
     "inv_error resp s" "inv_workers s" "inv_out s" "inv_done s"
    by (simp_all add: reach_inv_def)
  show ?thesis
    unfolding reach_inv_def
    using inv_lock_main[OF a(1) w] inv_found_main[OF a(2) w]
      inv_unique_main[OF a(3) w] inv_winner_main[OF a(4) w]
      inv_resp_main[OF a(5) w] inv_cancel_main[OF a(6) w] inv_submit_main[OF a(7) w]
      inv_calls_main[OF a(8) w] inv_success_main[OF a(9) w]
      inv_error_main[OF a(10) w] inv_workers_main[OF a(11) w]
      inv_out_main[OF a(12) w] inv_done_main[OF a(13) w]
    by simp
next
  case (ESee i)
  with st have w: "see_step i s = Some s'" by simp
  from inv have a: "inv_lock s" "inv_found s" "inv_unique s" "inv_winner s" "inv_resp resp s"
     "inv_cancel s" "inv_submit pw s" "inv_calls s" "inv_success resp s"
     "inv_error resp s" "inv_workers s" "inv_out s" "inv_done s"
    by (simp_all add: reach_inv_def)
  show ?thesis
    unfolding reach_inv_def
    using inv_lock_see[OF a(1) w] inv_found_see[OF a(2) w]
      inv_unique_see[OF a(3) w] inv_winner_see[OF a(4) w]
      inv_resp_see[OF a(5) w] inv_cancel_see[OF a(6) w] inv_submit_see[OF a(7) w]
      inv_calls_see[OF a(8) w] inv_success_see[OF a(9) w]
      inv_error_see[OF a(10) w] inv_workers_see[OF a(11) w]
      inv_out_see[OF a(12) w] inv_done_see[OF a(13) w]
    by simp
next
  case (EWork i)
  with st have w: "worker_step resp i s = Some s'" by simp
  from inv have a: "inv_lock s" "inv_found s" "inv_unique s" "inv_winner s" "inv_resp resp s"
     "inv_cancel s" "inv_submit pw s" "inv_calls s" "inv_success resp s"
     "inv_error resp s" "inv_workers s" "inv_out s" "inv_done s"
    by (simp_all add: reach_inv_def)
  show ?thesis
    unfolding reach_inv_def
    using inv_lock_worker[OF a(1) w] inv_found_worker[OF a(2) a(1) w]
      inv_unique_worker[OF a(3) a(2) w] inv_winner_worker[OF a(4) a(3) w]
      inv_resp_worker[OF a(5) w] inv_cancel_worker[OF a(6) w] inv_submit_worker[OF a(7) w]
      inv_calls_worker[OF a(8) w] inv_success_worker[OF a(9) a(5) w]
      inv_error_worker[OF a(10) a(5) w] inv_workers_worker[OF a(11) w]
      inv_out_worker[OF a(12) a(3) a(2) a(5) w] inv_done_worker[OF a(13) w]
    by simp
qed

lemma reach_inv_steps:
  "reach_inv resp pw s \<Longrightarrow> steps resp es s = Some s' \<Longrightarrow> reach_inv resp pw s'"
proof (induction es arbitrary: s)
  case Nil
  then show ?case by simp
next
  case (Cons e es)
  from Cons.prems(2) obtain s1 where s1: "step resp e s = Some s1" "steps resp es s1 = Some s'"
    by (auto split: option.splits)
  from reach_inv_step[OF Cons.prems(1) s1(1)] s1(2) show ?case
    by (rule Cons.IH)
qed

lemma reachable_inv: "steps resp es (init pw) = Some s \<Longrightarrow> reach_inv resp pw s"
  by (rule reach_inv_steps[OF reach_inv_init])

section \<open>After the claim\<close>

lemma found_mono_step: "step resp e s = Some s' \<Longrightarrow> found_password s \<Longrightarrow> found_password s'"
proof (cases e)
  case EMain
  assume "step resp e s = Some s'" "found_password s"
  with EMain have "run_step s = Some s'" by simp
  then show ?thesis using \<open>found_password s\<close>
    by (cases rule: run_step_cases) simp_all
next
  case (ESee i)
  assume "step resp e s = Some s'" "found_password s"
  with ESee show ?thesis by (auto simp: see_step_def split: if_splits)
next
  case (EWork i)
  assume "step resp e s = Some s'" "found_password s"
  with EWork show ?thesis by (simp add: found_mono_worker)
qed

lemma winner_kept_step:
  assumes inv: "reach_inv resp pw s" and st: "step resp e s = Some s'"
    and cp: "correct_password s = Some c"
  shows "correct_password s' = Some c"
proof (cases e)
  case EMain
  with st have "run_step s = Some s'" by simp
  then show ?thesis using cp by (cases rule: run_step_cases) simp_all
next
  case (ESee i)
  with st cp show ?thesis by (auto simp: see_step_def split: if_splits)
next
  case (EWork i)
  with st have "worker_step resp i s = Some s'" by simp
  then show ?thesis
  proof (cases rule: worker_step_cases)
    case (start p)
    with cp show ?thesis by simp
  next
    case (run p d)
    from inv have w: "inv_winner s" and u: "inv_unique s" by (simp_all add: reach_inv_def)
    from w cp obtain k where k: "k < length (futures s)" "won (snd (futures s ! k))"
      unfolding inv_winner_def by auto
    have "d \<noteq> SetWinner"
    proof
      assume "d = SetWinner"
      with run(2) have "claimed (snd (futures s ! i))" by simp
      moreover from k have "claimed (snd (futures s ! k))" by (simp add: won_claimed)
      ultimately have "k = i" using u k(1) run(1) by (simp add: inv_unique_def)
      with k(2) run(2) \<open>d = SetWinner\<close> show False by simp
    qed
    with run(3) cp show ?thesis
      by (cases d) (auto split: if_splits outcome.splits)
  qed
qed

lemma quiet_step:
  assumes inv: "reach_inv resp pw s" and st: "step resp e s = Some s'"
    and fd: "found_password s"
  shows "printed s' = printed s \<or> (\<exists>p. printed s' = printed s @ [FoundLine p])"
proof (cases e)
  case EMain
  with st have "run_step s = Some s'" by simp
  then show ?thesis by (cases rule: run_step_cases) simp_all
next
  case (ESee i)
  with st show ?thesis by (auto simp: see_step_def split: if_splits)
next
  case (EWork i)
  with st have "worker_step resp i s = Some s'" by simp
  then show ?thesis
  proof (cases rule: worker_step_cases)
    case (start p)
    then show ?thesis by simp
  next
    case (run p d)
    from inv have "inv_found s" by (simp add: reach_inv_def)
    with run(1) have "saw_unfound (snd (futures s ! i)) \<longrightarrow> \<not> found_password s"
      by (simp add: inv_found_def)
    with fd run(2) have "\<forall>m. d \<noteq> LogPrint m" by auto
    with run(3) show ?thesis
      by (cases d) (auto split: if_splits outcome.splits)
  qed
qed

lemma after_found_steps:
  "reach_inv resp pw s \<Longrightarrow> steps resp es s = Some s' \<Longrightarrow> found_password s \<Longrightarrow>
   found_password s' \<and> (\<exists>ws. printed s' = printed s @ ws \<and> list_all is_found_line ws)"
proof (induction es arbitrary: s)
  case Nil
  then show ?case by simp
next
  case (Cons e es)
  from Cons.prems(2) obtain s1 where s1: "step resp e s = Some s1" "steps resp es s1 = Some s'"
    by (auto split: option.splits)
  from reach_inv_step[OF Cons.prems(1) s1(1)] have i1: "reach_inv resp pw s1" .
  from found_mono_step[OF s1(1) Cons.prems(3)] have f1: "found_password s1" .
  from Cons.IH[OF i1 s1(2) f1] obtain ws where
    ws: "found_password s'" "printed s' = printed s1 @ ws" "list_all is_found_line ws" by blast
  from quiet_step[OF Cons.prems(1) s1(1) Cons.prems(3)]
  obtain vs where "printed s1 = printed s @ vs" "list_all is_found_line vs" by auto
  with ws have "printed s' = printed s @ (vs @ ws) \<and> list_all is_found_line (vs @ ws)"
    by simp
  with ws(1) show ?case by blast
qed

lemma winner_kept_steps:
  "reach_inv resp pw s \<Longrightarrow> steps resp es s = Some s' \<Longrightarrow> correct_password s = Some c \<Longrightarrow>
   correct_password s' = Some c"
proof (induction es arbitrary: s)
  case Nil
  then show ?case by simp
next
  case (Cons e es)
  from Cons.prems(2) obtain s1 where s1: "step resp e s = Some s1" "steps resp es s1 = Some s'"
    by (auto split: option.splits)
  from reach_inv_step[OF Cons.prems(1) s1(1)] have i1: "reach_inv resp pw s1" .
  from winner_kept_step[OF Cons.prems(1) s1(1) Cons.prems(3)] have "correct_password s1 = Some c" .
  from Cons.IH[OF i1 s1(2) this] show ?case .
qed

lemma no_win_filter: "no_win ls \<Longrightarrow> filter is_found_line ls = []"
  by (induction ls) (simp_all add: no_win_def)

lemma last_win_filter:
  assumes "ls \<noteq> []" and "last ls = FoundLine c" and "no_win (butlast ls)"
  shows "filter is_found_line ls = [FoundLine c]"
proof -
  from assms(1) have "ls = butlast ls @ [last ls]" by simp
  then have "filter is_found_line ls = filter is_found_line (butlast ls @ [FoundLine c])"
    using assms(2) by simp
  with no_win_filter[OF assms(3)] show ?thesis by simp
qed

lemma win_lines:
  assumes inv: "inv_out s"
  shows "length (filter is_found_line (printed s)) \<le> 1"
    and "k < length (futures s) \<Longrightarrow> snd (futures s ! k) = Finished True \<Longrightarrow>
         filter is_found_line (printed s) = [FoundLine (fst (futures s ! k))]"
proof -
  show b: "filter is_found_line (printed s) = [FoundLine (fst (futures s ! k))]"
    if "k < length (futures s)" "snd (futures s ! k) = Finished True" for k
    using inv that by (simp add: inv_out_def last_win_filter)
  show "length (filter is_found_line (printed s)) \<le> 1"
  proof (cases "\<exists>k < length (futures s). snd (futures s ! k) = Finished True")
    case True
    with b show ?thesis by auto
  next
    case False
    with inv have "no_win (printed s)" by (auto simp: inv_out_def)
    then show ?thesis by (simp add: no_win_filter)
  qed
qed

lemma done_claimed: "is_done st \<Longrightarrow> claimed st \<Longrightarrow> st = Finished True"
  by (cases st rule: claimed.cases) simp_all

section \<open>Termination\<close>

text \<open>Every transition makes the weight smaller, hence a run from the initial state has at
  most as many events as the initial weight.\<close>

lemma pool_weight_append [simp]:
  "pool_weight (fs @ [(p, x)]) = pool_weight fs + task_weight x"
  by (simp add: pool_weight_def)

lemma pool_weight_update:
  "i < length fs \<Longrightarrow>
   pool_weight (fs[i := (p, x)]) + task_weight (snd (fs ! i)) = pool_weight fs + task_weight x"
proof (induction fs arbitrary: i)
  case Nil
  then show ?case by simp
next
  case (Cons a fs)
  show ?case
  proof (cases i)
    case 0
    then show ?thesis by (simp add: pool_weight_def)
  next
    case (Suc j)
    with Cons.prems have "j < length fs" by simp
    from Cons.IH[OF this] Suc show ?thesis by (simp add: pool_weight_def)
  qed
qed

lemma unseen_le: "card ({..<n} - X) \<le> n"
proof -
  have "card ({..<n} - X) \<le> card {..<n}" by (rule card_mono) auto
  then show ?thesis by simp
qed

lemma unseen_less:
  assumes "i < (n::nat)" and "i \<notin> X"
  shows "card ({..<n} - insert i X) < card ({..<n} - X)"
proof -
  have eq: "{..<n} - insert i X = ({..<n} - X) - {i}" by auto
  from assms have mem: "i \<in> {..<n} - X" by simp
  have fin: "finite ({..<n} - X)" by (rule finite_Diff) simp
  from card_Diff1_less[OF fin mem] eq show ?thesis by simp
qed

lemma main_weight_same:
  "main_pc s' = main_pc s \<Longrightarrow> seen s' = seen s \<Longrightarrow> length (futures s') = length (futures s)
   \<Longrightarrow> main_weight s' = main_weight s"
  by (cases "main_pc s") (simp_all add: main_weight_def)

lemma weight_main:
  assumes st: "run_step s = Some s'"
  shows "weight s' < weight s"
  using st
proof (cases rule: run_step_cases)
  case (submit p ps)
  then show ?thesis by (simp add: weight_def main_weight_def)
next
  case (cancel k)
  from pool_weight_update[OF cancel(2), of "fst (futures s ! k)" Cancelled] cancel(3)
  have "pool_weight ((futures s)[k := (fst (futures s ! k), Cancelled)]) + 8 = pool_weight (futures s)"
    by simp
  with cancel show ?thesis by (simp add: weight_def main_weight_def)
next
  case (move m)
  from move(1) have m: "m = main_pc s'" by simp
  have "main_weight (s\<lparr>main_pc := m\<rparr>) < main_weight s"
  proof (cases "main_pc s")
    case (MSubmit ps)
    with m st unseen_le[of "length (futures s)" "set (seen s)"]
    show ?thesis
      by (cases ps) (auto simp: main_weight_def)
  next
    case MWait
    with m st show ?thesis
      by (auto simp: main_weight_def split: if_splits)
  next
    case MCheck
    with m st show ?thesis
      by (auto simp: main_weight_def split: if_splits)
  next
    case (MCancel k)
    with m st show ?thesis
      by (auto simp: main_weight_def split: if_splits)
  next
    case MShutdown
    with m st show ?thesis
      by (auto simp: main_weight_def)
  next
    case MJoin
    with m st show ?thesis
      by (auto simp: main_weight_def split: if_splits)
  next
    case MDone
    with st show ?thesis by simp
  qed
  with move(1) show ?thesis by (simp add: weight_def)
qed

lemma weight_see: "see_step i s = Some s' \<Longrightarrow> weight s' < weight s"
proof -
  assume a: "see_step i s = Some s'"
  then have g: "main_pc s = MWait" "i < length (futures s)" "i \<notin> set (seen s)"
    and s': "s' = s\<lparr>seen := seen s @ [i], main_pc := MCheck\<rparr>"
    by (auto simp: see_step_def split: if_splits)
  from unseen_less[OF g(2,3)] g(1) s' show ?thesis
    by (simp add: weight_def main_weight_def)
qed

lemma try_password_step_weight:
  assumes "try_password_step resp i p c s = Some s'" and "futures s ! i = (p, Running c)"
  shows "\<exists>x. futures s' = (futures s)[i := (p, x)] \<and> task_weight x < task_weight (Running c)"
  using assms by (cases c) (auto split: if_splits outcome.splits)

lemma weight_worker: "worker_step resp i s = Some s' \<Longrightarrow> weight s' < weight s"
proof (erule worker_step_cases, goal_cases)
  case (1 p)
  from pool_weight_update[OF 1(1), of p "Running CheckFound"] 1(2)
  have "pool_weight ((futures s)[i := (p, Running CheckFound)]) + 8 = pool_weight (futures s) + 7"
    by simp
  moreover from 1 have "main_weight s' = main_weight s"
    by (intro main_weight_same) simp_all
  ultimately show ?case using 1 by (simp add: weight_def)
next
  case (2 p c)
  from try_password_step_weight[OF 2(3) 2(2)] obtain x where
    x: "futures s' = (futures s)[i := (p, x)]" "task_weight x < task_weight (Running c)" by blast
  from pool_weight_update[OF 2(1), of p x] 2(2) x
  have "pool_weight (futures s') < pool_weight (futures s)" by simp
  moreover from try_password_step_main[OF 2(3)] try_password_step_length[OF 2(3)]
  have "main_weight s' = main_weight s" by (intro main_weight_same) simp_all
  ultimately show ?case by (simp add: weight_def)
qed

lemma weight_step: "step resp e s = Some s' \<Longrightarrow> weight s' < weight s"
  by (cases e) (simp_all add: weight_main weight_see weight_worker)

lemma weight_steps: "steps resp es s = Some s' \<Longrightarrow> length es + weight s' \<le> weight s"
proof (induction es arbitrary: s)
  case Nil
  then show ?case by simp
next
  case (Cons e es)
  from Cons.prems obtain s1 where s1: "step resp e s = Some s1" "steps resp es s1 = Some s'"
    by (auto split: option.splits)
  from weight_step[OF s1(1)] Cons.IH[OF s1(2)] show ?case by simp
qed

lemma weight_init: "weight (init pw) = 12 * length pw + 6"
  by (simp add: weight_def main_weight_def pool_weight_def init_def)

lemma run_length: "steps resp es (init pw) = Some s \<Longrightarrow> length es \<le> 12 * length pw + 6"
  using weight_steps[of resp es "init pw" s] by (simp add: weight_init)

subsection \<open>No deadlock\<close>

text \<open>
  As long as \<^verbatim>\<open>run\<close> has not returned some thread can move: the owner of the lock if
  there is one, any running task otherwise, a queued task when none is running,
  and the main thread when every future is cancelled or finished.
\<close>

lemma try_password_step_free:
  "lock s = None \<Longrightarrow> try_password_step resp i p c s \<noteq> None"
  by (cases c) (auto split: outcome.splits)

lemma try_password_step_holder:
  "holds_lock (Running c) \<Longrightarrow> try_password_step resp i p c s \<noteq> None"
  by (cases c) auto

lemma holds_lock_running: "holds_lock st \<Longrightarrow> \<exists>c. st = Running c"
  by (cases st) auto

lemma no_running_count:
  "\<forall>k < length fs. \<not> is_running (snd (fs ! k)) \<Longrightarrow> running_count fs = 0"
  by (fastforce simp: running_count_def filter_empty_conv in_set_conv_nth)

lemma unseen_exists:
  assumes "length xs < n"
  shows "\<exists>i < n. i \<notin> set xs"
proof (rule ccontr)
  assume "\<not> (\<exists>i < n. i \<notin> set xs)"
  then have "{..<n} \<subseteq> set xs" by auto
  then have "card {..<n} \<le> card (set xs)" by (intro card_mono) simp_all
  also have "\<dots> \<le> length xs" by (rule card_length)
  finally show False using assms by simp
qed

lemma progress:
  assumes l: "inv_lock s" and nd: "main_pc s \<noteq> MDone"
  shows "\<exists>e. step resp e s \<noteq> None"
proof (cases "\<exists>i < length (futures s). is_running (snd (futures s ! i))")
  case True
  then obtain i where i: "i < length (futures s)" "is_running (snd (futures s ! i))" by blast
  then obtain p c where pc: "futures s ! i = (p, Running c)"
    by (cases "futures s ! i"; cases "snd (futures s ! i)") auto
  show ?thesis
  proof (cases "lock s")
    case None
    with i(1) pc have "worker_step resp i s \<noteq> None"
      by (simp add: worker_step_def try_password_step_free)
    then have "step resp (EWork i) s \<noteq> None" by simp
    then show ?thesis by blast
  next
    case (Some j)
    with l have j: "j < length (futures s)" "holds_lock (snd (futures s ! j))"
      by (simp_all add: inv_lock_def)
    from holds_lock_running[OF j(2)] obtain q d where qd: "futures s ! j = (q, Running d)"
      by (cases "futures s ! j") auto
    with j(2) have "holds_lock (Running d)" by simp
    with j(1) qd have "worker_step resp j s \<noteq> None"
      by (simp add: worker_step_def try_password_step_holder)
    then have "step resp (EWork j) s \<noteq> None" by simp
    then show ?thesis by blast
  qed
next
  case False
  then have nr: "\<forall>k < length (futures s). \<not> is_running (snd (futures s ! k))" by blast
  show ?thesis
  proof (cases "\<exists>i < length (futures s). snd (futures s ! i) = Pending")
    case True
    then obtain i where i: "i < length (futures s)" "snd (futures s ! i) = Pending" by blast
    from i(2) obtain p where "futures s ! i = (p, Pending)" by (cases "futures s ! i") auto
    with i no_running_count[OF nr] have "worker_step resp i s \<noteq> None"
      by (simp add: worker_step_def max_workers_def)
    then have "step resp (EWork i) s \<noteq> None" by simp
    then show ?thesis by blast
  next
    case False
    have dn: "is_done (snd (futures s ! k))" if "k < length (futures s)" for k
      using that nr False by (cases "snd (futures s ! k)") auto
    have "run_step s \<noteq> None \<or> (\<exists>i. see_step i s \<noteq> None)"
    proof (cases "main_pc s")
      case (MSubmit ps)
      then show ?thesis by (cases ps) simp_all
    next
      case MWait
      show ?thesis
      proof (cases "length (futures s) \<le> length (seen s)")
        case True
        with MWait show ?thesis by simp
      next
        case False
        then have "length (seen s) < length (futures s)" by simp
        from unseen_exists[OF this] obtain i where "i < length (futures s)" "i \<notin> set (seen s)"
          by blast
        with MWait dn have "see_step i s \<noteq> None" by (simp add: see_step_def)
        then show ?thesis by blast
      qed
    next
      case MCheck
      then show ?thesis by simp
    next
      case (MCancel k)
      then show ?thesis by simp
    next
      case MShutdown
      then show ?thesis by simp
    next
      case MJoin
      with dn show ?thesis by (simp add: list_all_length)
    next
      case MDone
      with nd show ?thesis by simp
    qed
    then show ?thesis
    proof
      assume "run_step s \<noteq> None"
      then have "step resp EMain s \<noteq> None" by simp
      then show ?thesis by blast
    next
      assume "\<exists>i. see_step i s \<noteq> None"
      then obtain i where "step resp (ESee i) s \<noteq> None" by auto
      then show ?thesis by blast
    qed
  qed
qed

lemma run_terminates:
  assumes "steps resp es (init pw) = Some s"
  shows "length es \<le> 12 * length pw + 6"
    and "main_pc s \<noteq> MDone \<Longrightarrow> \<exists>e. step resp e s \<noteq> None"
proof -
  from assms show "length es \<le> 12 * length pw + 6" by (rule run_length)
  from reachable_inv[OF assms] have "inv_lock s" by (simp add: reach_inv_def)
  then show "main_pc s \<noteq> MDone \<Longrightarrow> \<exists>e. step resp e s \<noteq> None" by (rule progress)
qed

lemma program_run_length:
  "steps resp es (init password_list) = Some s \<Longrightarrow> length es \<le> 312006"
  using run_length[of resp es password_list s] by (simp add: password_list_length)

section \<open>The state in which run returns\<close>

lemma distinct_count_le: "distinct xs \<Longrightarrow> count_list xs a \<le> 1"
  by (induction xs) (auto simp: count_list_0_iff)

lemma final_futures:
  assumes inv: "reach_inv resp pw s" and dn: "main_pc s = MDone"
  shows "length (futures s) = length pw"
    and "k < length pw \<Longrightarrow> fst (futures s ! k) = pw ! k"
    and "k < length pw \<Longrightarrow> is_done (snd (futures s ! k))"
proof -
  from inv dn have m: "map fst (futures s) = pw" by (simp add: reach_inv_def inv_submit_def)
  then show len: "length (futures s) = length pw" by (metis length_map)
  show "fst (futures s ! k) = pw ! k" if "k < length pw"
    using that m len by (metis nth_map)
  from inv dn len show "k < length pw \<Longrightarrow> is_done (snd (futures s ! k))"
    by (simp add: reach_inv_def inv_done_def)
qed

lemma found_has_winner:
  assumes inv: "reach_inv resp pw s" and dn: "main_pc s = MDone" and fd: "found_password s"
  shows "\<exists>k < length pw. resp k = Success \<and> correct_password s = Some (pw ! k)
           \<and> snd (futures s ! k) = Finished True"
proof -
  from inv have f: "inv_found s" and w: "inv_winner s" and rs: "inv_resp resp s"
    by (simp_all add: reach_inv_def)
  note fin = final_futures[OF inv dn]
  from f fd obtain k where k: "k < length (futures s)" "claimed (snd (futures s ! k))"
    unfolding inv_found_def by blast
  with fin(1) have kp: "k < length pw" by simp
  from done_claimed[OF fin(3)[OF kp] k(2)] have ft: "snd (futures s ! k) = Finished True" .
  from rs k(1) have "resp_ok resp k (fst (futures s ! k)) (snd (futures s ! k))"
    by (simp add: inv_resp_def)
  with ft have "resp k = Success" by simp
  moreover from w k(1) ft fin(2)[OF kp] have "correct_password s = Some (pw ! k)"
    by (simp add: inv_winner_def)
  ultimately show ?thesis using kp ft by blast
qed

lemma success_is_found:
  assumes inv: "reach_inv resp pw s" and dn: "main_pc s = MDone"
    and k: "k < length pw" and sc: "resp k = Success"
  shows "found_password s"
proof -
  from inv have f: "inv_found s" and c: "inv_cancel s" and su: "inv_success resp s"
    by (simp_all add: reach_inv_def)
  note fin = final_futures[OF inv dn]
  from k fin(1) have kf: "k < length (futures s)" by simp
  from fin(3)[OF k] consider "snd (futures s ! k) = Cancelled"
    | "snd (futures s ! k) = Finished False" | "snd (futures s ! k) = Finished True"
    by (cases "snd (futures s ! k)") auto
  then show ?thesis
  proof cases
    case 1
    with c kf show ?thesis by (simp add: inv_cancel_def)
  next
    case 2
    with su kf sc show ?thesis by (simp add: inv_success_def)
  next
    case 3
    with f kf show ?thesis by (simp add: inv_found_def)
  qed
qed

lemma unset_winner:
  assumes inv: "reach_inv resp pw s" and nf: "\<not> found_password s"
  shows "correct_password s = None"
proof (rule ccontr)
  assume "correct_password s \<noteq> None"
  with inv obtain k where k: "k < length (futures s)" "won (snd (futures s ! k))"
    unfolding reach_inv_def inv_winner_def by blast
  from k(2) have "claimed (snd (futures s ! k))" by (rule won_claimed)
  with inv k(1) have "found_password s" by (simp add: reach_inv_def inv_found_def)
  with nf show False by simp
qed

section \<open>The concrete runs, evaluated\<close>

lemmas eval_defs = init_def worker_step_def see_step_def set_pc_def finish_def
  running_count_def max_workers_def demo_resp_def demo_oracle_def demo_pw_def

lemma demo_run: "steps demo_resp demo_sched (init demo_pw) = Some demo_final"
  by (simp add: demo_sched_def demo_final_def eval_defs)

lemma skip_run: "steps demo_resp skip_sched (init demo_pw) = Some skip_state"
  by (simp add: skip_sched_def skip_state_def eval_defs)

lemma sub_run: "steps (\<lambda>i. Success) sub_sched (init demo_pw) = Some sub_state"
  by (simp add: sub_sched_def sub_state_def eval_defs)

lemma quiet_run: "steps demo_resp quiet_sched (init demo_pw) = Some quiet_state"
  by (simp add: quiet_sched_def quiet_state_def eval_defs)

lemma won_run:
  "steps demo_resp [EWork 1, EWork 1, EWork 0, EWork 0] quiet_state = Some won_state"
  by (simp add: quiet_state_def won_state_def eval_defs)

lemma exh_run: "steps (\<lambda>i. Rejected) exh_sched (init exh_pw) = Some exh_final"
  by (simp add: exh_sched_def exh_pw_def exh_final_def eval_defs)

lemma err_mid_run:
  "steps (\<lambda>i. err_oracle (err_pw ! i)) [EMain, EMain, EMain, EWork 0, EWork 0] (init err_pw)
   = Some err_mid"
  by (simp add: err_oracle_def err_pw_def err_mid_def eval_defs)

lemma err_run:
  "steps (\<lambda>i. err_oracle (err_pw ! i)) exh_sched (init err_pw) = Some err_final"
  by (simp add: exh_sched_def err_oracle_def err_pw_def err_final_def eval_defs)

lemma supp_run: "steps demo_resp supp_sched (init demo_pw) = Some supp_final"
  by (simp add: supp_sched_def supp_final_def eval_defs)

lemma demo_resp_oracle: "demo_resp = (\<lambda>i. demo_oracle (demo_pw ! i))"
  by (rule ext) (simp add: demo_resp_def)

section \<open>The claims of the specification\<close>

text \<open>
  Claim C1. In every run, at most one task gets through the claim of line 34 to 39: the
  tasks that have executed the assignment of line 36 (they are about to return
  \<^verbatim>\<open>True\<close>, or have returned it) are at most one, also when the oracle accepts several
  passwords; and when a task has returned \<^verbatim>\<open>True\<close>, the oracle had accepted its
  password and \<^verbatim>\<open>correct_password\<close> is the password of that task.
\<close>

theorem claim_unique_winner:
  assumes "steps resp es (init pw) = Some s"
  shows "(\<forall>k < length (futures s). \<forall>j < length (futures s).
            claimed (snd (futures s ! k)) \<and> claimed (snd (futures s ! j)) \<longrightarrow> k = j)
       \<and> (\<forall>k < length (futures s). snd (futures s ! k) = Finished True \<longrightarrow>
            resp k = Success \<and> correct_password s = Some (fst (futures s ! k)))"
proof -
  from assms have inv: "reach_inv resp pw s" by (rule reachable_inv)
  then have "inv_unique s" "inv_winner s" "inv_resp resp s"
    by (simp_all add: reach_inv_def)
  then show ?thesis
    unfolding inv_unique_def inv_winner_def inv_resp_def
    by (metis resp_ok.simps(6) won.simps(2))
qed

theorem claim_unique_winner_witness:
  "steps demo_resp demo_sched (init demo_pw) = Some demo_final
   \<and> snd (futures demo_final ! 1) = Finished True
   \<and> claimed (snd (futures demo_final ! 1))
   \<and> \<not> claimed (snd (futures demo_final ! 0)) \<and> \<not> claimed (snd (futures demo_final ! 2))
   \<and> demo_resp 1 = Success
   \<and> correct_password demo_final = Some (fst (futures demo_final ! 1))
   \<and> correct_password demo_final = Some ''000B''"
  using claim_unique_winner[OF demo_run] demo_run
  by (simp add: demo_final_def demo_resp_def demo_oracle_def demo_pw_def)

text \<open>
  Claim C2. Every run of \<^verbatim>\<open>run\<close>, for any password list and any oracle, is finite (at
  most \<open>12 * length pw + 6\<close> transitions) and is never stuck before \<^verbatim>\<open>run\<close> has
  returned; when it has returned, either \<^verbatim>\<open>found_password\<close> is set and
  \<^verbatim>\<open>correct_password\<close> is a password of the list that the oracle accepts (the result
  "found"), or the flag is unset and \<^verbatim>\<open>correct_password\<close> is empty (the result
  "exhausted"). When exactly one password of the list is accepted by the oracle, the
  result is "found" with that password. The pool has ten threads in every run, so the
  condition on the number of workers always holds.
\<close>

theorem run_finds_the_success:
  assumes r: "steps (\<lambda>i. oracle (pw ! i)) es (init pw) = Some s"
  shows "length es \<le> 12 * length pw + 6
       \<and> (main_pc s \<noteq> MDone \<longrightarrow> (\<exists>e. step (\<lambda>i. oracle (pw ! i)) e s \<noteq> None))
       \<and> (main_pc s = MDone \<longrightarrow>
            (found_password s
               \<and> (\<exists>c \<in> set pw. oracle c = Success \<and> correct_password s = Some c))
            \<or> (\<not> found_password s \<and> correct_password s = None))
       \<and> (\<forall>c. c \<in> set pw \<and> oracle c = Success
                \<and> (\<forall>c' \<in> set pw. oracle c' = Success \<longrightarrow> c' = c)
              \<longrightarrow> main_pc s = MDone
              \<longrightarrow> found_password s \<and> correct_password s = Some c)"
proof -
  let ?resp = "\<lambda>i. oracle (pw ! i)"
  from r have inv: "reach_inv ?resp pw s" by (rule reachable_inv)
  note t = run_terminates[OF r]
  have win: "\<exists>c \<in> set pw. oracle c = Success \<and> correct_password s = Some c"
    if "main_pc s = MDone" "found_password s"
  proof -
    from found_has_winner[OF inv that] obtain k where
      "k < length pw" "oracle (pw ! k) = Success" "correct_password s = Some (pw ! k)" by blast
    then show ?thesis by (metis nth_mem)
  qed
  have C: "main_pc s = MDone \<longrightarrow>
      (found_password s \<and> (\<exists>c \<in> set pw. oracle c = Success \<and> correct_password s = Some c))
      \<or> (\<not> found_password s \<and> correct_password s = None)"
    using win unset_winner[OF inv] by blast
  have D: "found_password s \<and> correct_password s = Some c"
    if c: "c \<in> set pw" "oracle c = Success" "\<forall>c' \<in> set pw. oracle c' = Success \<longrightarrow> c' = c"
      and dn: "main_pc s = MDone" for c
  proof -
    from c(1) obtain k where k: "k < length pw" "pw ! k = c" by (auto simp: in_set_conv_nth)
    with c(2) have "?resp k = Success" by simp
    from success_is_found[OF inv dn k(1) this] have fd: "found_password s" .
    from win[OF dn fd] obtain c' where "c' \<in> set pw" "oracle c' = Success"
      "correct_password s = Some c'" by blast
    with c(3) fd show ?thesis by auto
  qed
  from t(1) t(2) C D show ?thesis by blast
qed

theorem run_finds_the_success_witness:
  "steps (\<lambda>i. demo_oracle (demo_pw ! i)) demo_sched (init demo_pw) = Some demo_final
   \<and> length demo_sched \<le> 12 * length demo_pw + 6
   \<and> demo_pw = [''000A'', ''000B'', ''000C'']
   \<and> demo_oracle ''000A'' = Rejected \<and> demo_oracle ''000B'' = Success
   \<and> demo_oracle ''000C'' = Error ''timeout''
   \<and> main_pc demo_final = MDone
   \<and> found_password demo_final \<and> correct_password demo_final = Some ''000B''"
proof -
  have r: "steps (\<lambda>i. demo_oracle (demo_pw ! i)) demo_sched (init demo_pw) = Some demo_final"
    using demo_run by (simp add: demo_resp_oracle)
  have u: "''000B'' \<in> set demo_pw \<and> demo_oracle ''000B'' = Success
      \<and> (\<forall>c' \<in> set demo_pw. demo_oracle c' = Success \<longrightarrow> c' = ''000B'')"
    by (simp add: demo_pw_def demo_oracle_def)
  have d: "main_pc demo_final = MDone" by (simp add: demo_final_def)
  have o: "demo_pw = [''000A'', ''000B'', ''000C'']
      \<and> demo_oracle ''000A'' = Rejected \<and> demo_oracle ''000B'' = Success
      \<and> demo_oracle ''000C'' = Error ''timeout''"
    by (simp add: demo_pw_def demo_oracle_def)
  from run_finds_the_success[OF r] u d r o show ?thesis by blast
qed

text \<open>
  Claim C3. When the oracle accepts no password of the list, every run is finite and never
  stuck before \<^verbatim>\<open>run\<close> has returned, the flag is never set and
  \<^verbatim>\<open>correct_password\<close> stays empty, no task calls the oracle twice, and when
  \<^verbatim>\<open>run\<close> has returned every task has called the oracle exactly once and has returned
  \<^verbatim>\<open>False\<close>: no password is skipped and none is tried twice.
\<close>

theorem exhausted_tries_all:
  assumes r: "steps (\<lambda>i. oracle (pw ! i)) es (init pw) = Some s"
    and no: "\<forall>c \<in> set pw. oracle c \<noteq> Success"
  shows "length es \<le> 12 * length pw + 6
       \<and> (main_pc s \<noteq> MDone \<longrightarrow> (\<exists>e. step (\<lambda>i. oracle (pw ! i)) e s \<noteq> None))
       \<and> \<not> found_password s \<and> correct_password s = None
       \<and> distinct (oracle_calls s) \<and> set (oracle_calls s) \<subseteq> {..<length pw}
       \<and> (main_pc s = MDone \<longrightarrow>
            set (oracle_calls s) = {..<length pw}
            \<and> (\<forall>k < length pw. count_list (oracle_calls s) k = 1
                  \<and> futures s ! k = (pw ! k, Finished False)))"
proof -
  let ?resp = "\<lambda>i. oracle (pw ! i)"
  from r have inv: "reach_inv ?resp pw s" by (rule reachable_inv)
  then have f: "inv_found s" and rs: "inv_resp ?resp s" and sb: "inv_submit pw s"
    and cl: "inv_calls s" and cn: "inv_cancel s"
    by (simp_all add: reach_inv_def)
  note t = run_terminates[OF r]
  from sb have le: "length (futures s) \<le> length pw"
    by (cases "main_pc s") (auto simp: inv_submit_def dest: arg_cong[where f = length])
  have nf: "\<not> found_password s"
  proof
    assume "found_password s"
    with f obtain k where k: "k < length (futures s)" "claimed (snd (futures s ! k))"
      unfolding inv_found_def by blast
    from rs k(1) have "resp_ok ?resp k (fst (futures s ! k)) (snd (futures s ! k))"
      by (simp add: inv_resp_def)
    with k(2) have "oracle (pw ! k) = Success"
      by (cases "snd (futures s ! k)" rule: claimed.cases) simp_all
    moreover from k(1) le have "pw ! k \<in> set pw" by simp
    ultimately show False using no by blast
  qed
  from unset_winner[OF inv nf] have cp: "correct_password s = None" .
  from cl have d: "distinct (oracle_calls s)"
    and sub: "\<forall>j \<in> set (oracle_calls s). j < length (futures s)"
    by (simp_all add: inv_calls_def)
  from sub le have sub': "set (oracle_calls s) \<subseteq> {..<length pw}" by auto
  have fin: "k \<in> set (oracle_calls s) \<and> count_list (oracle_calls s) k = 1
        \<and> futures s ! k = (pw ! k, Finished False)"
    if dn: "main_pc s = MDone" and k: "k < length pw" for k
  proof -
    note ff = final_futures[OF inv dn]
    from k ff(1) have kf: "k < length (futures s)" by simp
    from f kf nf have nc: "\<not> claimed (snd (futures s ! k))" by (auto simp: inv_found_def)
    from cn kf nf have ncc: "snd (futures s ! k) \<noteq> Cancelled" by (auto simp: inv_cancel_def)
    from ff(3)[OF k] nc ncc have ft: "snd (futures s ! k) = Finished False"
      by (cases "snd (futures s ! k)" rule: claimed.cases) simp_all
    with cl kf nf have mem: "k \<in> set (oracle_calls s)" by (auto simp: inv_calls_def)
    then have "count_list (oracle_calls s) k \<noteq> 0" by (simp add: count_list_0_iff)
    with distinct_count_le[OF d, of k] have "count_list (oracle_calls s) k = 1" by simp
    moreover from ft ff(2)[OF k] have "futures s ! k = (pw ! k, Finished False)"
      by (metis prod.collapse)
    ultimately show ?thesis using mem by blast
  qed
  have E: "main_pc s = MDone \<longrightarrow>
      set (oracle_calls s) = {..<length pw}
      \<and> (\<forall>k < length pw. count_list (oracle_calls s) k = 1
            \<and> futures s ! k = (pw ! k, Finished False))"
    using fin sub' by auto
  from t(1) t(2) nf cp d sub' E show ?thesis by blast
qed

theorem exhausted_tries_all_witness:
  "steps (\<lambda>i. (\<lambda>c. Rejected) (exh_pw ! i)) exh_sched (init exh_pw) = Some exh_final
   \<and> exh_pw = [''AAA'', ''AAB'']
   \<and> main_pc exh_final = MDone \<and> \<not> found_password exh_final
   \<and> correct_password exh_final = None
   \<and> oracle_calls exh_final = [0, 1] \<and> length exh_pw = 2
   \<and> count_list (oracle_calls exh_final) 0 = 1 \<and> count_list (oracle_calls exh_final) 1 = 1"
proof -
  have r: "steps (\<lambda>i. (\<lambda>c. Rejected) (exh_pw ! i)) exh_sched (init exh_pw) = Some exh_final"
    using exh_run by simp
  have no: "\<forall>c \<in> set exh_pw. (\<lambda>c. Rejected) c \<noteq> Success" by simp
  from exhausted_tries_all[OF r no] r show ?thesis
    by (simp add: exh_final_def exh_pw_def)
qed

text \<open>
  Claim C4. In every run, \<^verbatim>\<open>found_password\<close> never goes back to false once it is true;
  \<^verbatim>\<open>correct_password\<close> keeps the value it was given first, it is set only after the
  flag, and at most one task executes the assignment of line 37; from the test of line 35
  to the print of line 38 the task owns the lock, so that the assignments of line 36 and
  37 are made within one acquisition of it; and the flag is set with
  \<^verbatim>\<open>correct_password\<close> still empty only while that task, still owning the lock, is about
  to execute line 37.
\<close>

theorem found_flag_monotone:
  assumes r: "steps resp es (init pw) = Some s" and r': "steps resp es' s = Some s'"
  shows "(found_password s \<longrightarrow> found_password s')
       \<and> (\<forall>c. correct_password s = Some c \<longrightarrow> correct_password s' = Some c)
       \<and> (correct_password s \<noteq> None \<longrightarrow> found_password s)
       \<and> (\<forall>k < length (futures s). \<forall>j < length (futures s).
            won (snd (futures s ! k)) \<and> won (snd (futures s ! j)) \<longrightarrow> k = j)
       \<and> (\<forall>k < length (futures s).
            snd (futures s ! k) = Running ClaimTest \<or> snd (futures s ! k) = Running SetFound
            \<or> snd (futures s ! k) = Running SetWinner \<or> snd (futures s ! k) = Running PrintWin
            \<longrightarrow> lock s = Some k)
       \<and> (found_password s \<and> correct_password s = None \<longrightarrow>
            (\<exists>k < length (futures s). snd (futures s ! k) = Running SetWinner \<and> lock s = Some k))"
proof -
  from r have inv: "reach_inv resp pw s" by (rule reachable_inv)
  then have l: "inv_lock s" and f: "inv_found s" and w: "inv_winner s" and u: "inv_unique s"
    by (simp_all add: reach_inv_def)
  have U: "\<forall>k < length (futures s). \<forall>j < length (futures s).
      won (snd (futures s ! k)) \<and> won (snd (futures s ! j)) \<longrightarrow> k = j"
  proof (intro allI impI)
    fix k j assume "k < length (futures s)" "j < length (futures s)"
      and "won (snd (futures s ! k)) \<and> won (snd (futures s ! j))"
    with u show "k = j" by (simp add: inv_unique_def won_claimed)
  qed
  have A: "found_password s \<longrightarrow> found_password s'"
    using after_found_steps[OF inv r'] by blast
  have B: "\<forall>c. correct_password s = Some c \<longrightarrow> correct_password s' = Some c"
    using winner_kept_steps[OF inv r'] by blast
  have C: "correct_password s \<noteq> None \<longrightarrow> found_password s"
  proof
    assume "correct_password s \<noteq> None"
    with w obtain k where "k < length (futures s)" "won (snd (futures s ! k))"
      unfolding inv_winner_def by blast
    with f show "found_password s" by (simp add: inv_found_def won_claimed)
  qed
  have D: "\<forall>k < length (futures s).
      snd (futures s ! k) = Running ClaimTest \<or> snd (futures s ! k) = Running SetFound
      \<or> snd (futures s ! k) = Running SetWinner \<or> snd (futures s ! k) = Running PrintWin
      \<longrightarrow> lock s = Some k"
  proof (intro allI impI)
    fix k assume k: "k < length (futures s)"
      and "snd (futures s ! k) = Running ClaimTest \<or> snd (futures s ! k) = Running SetFound
        \<or> snd (futures s ! k) = Running SetWinner \<or> snd (futures s ! k) = Running PrintWin"
    then have "holds_lock (snd (futures s ! k))" by auto
    with l k show "lock s = Some k" by (simp add: inv_lock_def)
  qed
  have E: "found_password s \<and> correct_password s = None \<longrightarrow>
      (\<exists>k < length (futures s). snd (futures s ! k) = Running SetWinner \<and> lock s = Some k)"
  proof
    assume a: "found_password s \<and> correct_password s = None"
    with f obtain k where k: "k < length (futures s)" "claimed (snd (futures s ! k))"
      unfolding inv_found_def by blast
    from w k(1) a have "\<not> won (snd (futures s ! k))" by (auto simp: inv_winner_def)
    with k(2) have "snd (futures s ! k) = Running SetWinner"
      by (cases "snd (futures s ! k)" rule: claimed.cases) simp_all
    with D k(1) show "\<exists>k < length (futures s). snd (futures s ! k) = Running SetWinner \<and> lock s = Some k"
      by blast
  qed
  from A B C U D E show ?thesis by blast
qed

theorem found_flag_monotone_witness:
  "steps demo_resp quiet_sched (init demo_pw) = Some quiet_state
   \<and> steps demo_resp [EWork 1, EWork 1, EWork 0, EWork 0] quiet_state = Some won_state
   \<and> found_password quiet_state \<and> found_password won_state
   \<and> correct_password quiet_state = None
   \<and> snd (futures quiet_state ! 1) = Running SetWinner \<and> lock quiet_state = Some 1
   \<and> steps demo_resp (quiet_sched @ [EWork 1, EWork 1, EWork 0, EWork 0]) (init demo_pw)
       = Some won_state
   \<and> steps demo_resp [] won_state = Some won_state
   \<and> correct_password won_state = Some ''000B''"
proof -
  have full: "steps demo_resp (quiet_sched @ [EWork 1, EWork 1, EWork 0, EWork 0]) (init demo_pw)
      = Some won_state"
    by (simp add: quiet_sched_def won_state_def eval_defs)
  have nil: "steps demo_resp [] won_state = Some won_state" by simp
  from found_flag_monotone[OF quiet_run won_run] found_flag_monotone[OF full nil]
    quiet_run won_run full
  show ?thesis by (simp add: quiet_state_def won_state_def)
qed

text \<open>
  Claim C5. In every run the line of line 38 is printed at most once; as soon as a task has
  returned \<^verbatim>\<open>True\<close> it has been printed exactly once, for the password of that task;
  and when \<^verbatim>\<open>run\<close> has returned with \<^verbatim>\<open>found_password\<close> set, the output holds
  that line exactly once, for the password stored in \<^verbatim>\<open>correct_password\<close>. Line 38
  prints directly, not through \<^verbatim>\<open>log\<close>, hence the flag cannot suppress it.
\<close>

theorem winning_line_once:
  assumes r: "steps resp es (init pw) = Some s"
  shows "length (filter is_found_line (printed s)) \<le> 1
       \<and> (\<forall>k < length (futures s). snd (futures s ! k) = Finished True \<longrightarrow>
            filter is_found_line (printed s) = [FoundLine (fst (futures s ! k))])
       \<and> (main_pc s = MDone \<and> found_password s \<longrightarrow>
            (\<exists>c. correct_password s = Some c
                \<and> filter is_found_line (printed s) = [FoundLine c]))"
proof -
  from r have inv: "reach_inv resp pw s" by (rule reachable_inv)
  then have o: "inv_out s" and f: "inv_found s" and w: "inv_winner s" and d: "inv_done s"
    by (simp_all add: reach_inv_def)
  have C: "\<exists>c. correct_password s = Some c \<and> filter is_found_line (printed s) = [FoundLine c]"
    if "main_pc s = MDone \<and> found_password s"
  proof -
    from f that obtain k where k: "k < length (futures s)" "claimed (snd (futures s ! k))"
      unfolding inv_found_def by blast
    from d that k(1) have "is_done (snd (futures s ! k))" by (simp add: inv_done_def)
    from done_claimed[OF this k(2)] have ft: "snd (futures s ! k) = Finished True" .
    with w k(1) have "correct_password s = Some (fst (futures s ! k))"
      by (simp add: inv_winner_def)
    with win_lines(2)[OF o k(1) ft] show ?thesis by simp
  qed
  from win_lines(1)[OF o] win_lines(2)[OF o] C show ?thesis by blast
qed

theorem winning_line_once_witness:
  "steps demo_resp demo_sched (init demo_pw) = Some demo_final
   \<and> main_pc demo_final = MDone \<and> found_password demo_final
   \<and> snd (futures demo_final ! 1) = Finished True
   \<and> correct_password demo_final = Some ''000B''
   \<and> filter is_found_line (printed demo_final) = [FoundLine ''000B'']"
  using winning_line_once[OF demo_run] demo_run
  by (simp add: demo_final_def)

text \<open>
  Claim C6. From the moment \<^verbatim>\<open>found_password\<close> is set, whatever the threads do
  afterwards, no line of \<^verbatim>\<open>log\<close> (line 41 or 43) is printed any more: all that is
  added to the output is the line of line 38, at most once. The test of line 22 is made
  with the lock held, so no such line can follow the claim, which is more than the
  best-effort suppression the claim asks for.
\<close>

theorem quiet_after_claim:
  assumes r: "steps resp es (init pw) = Some s" and r': "steps resp es' s = Some s'"
    and fd: "found_password s"
  shows "\<exists>ws. printed s' = printed s @ ws \<and> list_all is_found_line ws \<and> length ws \<le> 1"
proof -
  from r have inv: "reach_inv resp pw s" by (rule reachable_inv)
  from after_found_steps[OF inv r' fd] obtain ws where
    ws: "printed s' = printed s @ ws" "list_all is_found_line ws" by blast
  from reach_inv_steps[OF inv r'] have "inv_out s'" by (simp add: reach_inv_def)
  then have "length (filter is_found_line (printed s')) \<le> 1" by (rule win_lines(1))
  moreover from ws(2) have "filter is_found_line ws = ws"
    by (simp add: list_all_iff)
  ultimately have "length ws \<le> 1" using ws(1) by simp
  with ws show ?thesis by blast
qed

theorem quiet_after_claim_witness:
  "steps demo_resp quiet_sched (init demo_pw) = Some quiet_state
   \<and> steps demo_resp [EWork 1, EWork 1, EWork 0, EWork 0] quiet_state = Some won_state
   \<and> found_password quiet_state
   \<and> futures quiet_state ! 0 = (''000A'', Running (LogLock (AttemptedLine ''000A'')))
   \<and> futures won_state ! 0 = (''000A'', Finished False)
   \<and> printed won_state = printed quiet_state @ [FoundLine ''000B'']"
  using quiet_after_claim[OF quiet_run won_run] quiet_run won_run
  by (simp add: quiet_state_def won_state_def)

text \<open>
  Claim C7, as the code has it. For a task whose call of \<^verbatim>\<open>requests.post\<close> raises: the
  task never makes a claim and never returns \<^verbatim>\<open>True\<close>; it calls the oracle at most
  once; the exception takes it to \<^verbatim>\<open>log\<close> with the message of line 43, and changes
  nothing else; that message is the only one it can be inside \<^verbatim>\<open>log\<close> with; when it
  has returned and the flag is unset, the message has been printed; and the run is never
  stuck before \<^verbatim>\<open>run\<close> has returned. The message is not printed in every run:
  \<^verbatim>\<open>log\<close> drops it when the flag is set by the time of the test of line 22, as the
  run \<open>supp_sched\<close> shows.
\<close>

theorem oracle_fault_contained:
  assumes r: "steps resp es (init pw) = Some s"
    and k: "k < length (futures s)" and er: "resp k = Error e"
  shows "snd (futures s ! k) \<noteq> Finished True \<and> \<not> claimed (snd (futures s ! k))
       \<and> count_list (oracle_calls s) k \<le> 1
       \<and> (snd (futures s ! k) = Running Posting \<longrightarrow>
            step resp (EWork k) s
              = Some (set_pc k (LogLock (ErrorLine (fst (futures s ! k)) e)) s))
       \<and> (\<forall>m. snd (futures s ! k) = Running (LogLock m)
               \<or> snd (futures s ! k) = Running (LogTest m)
               \<or> snd (futures s ! k) = Running (LogPrint m)
              \<longrightarrow> m = ErrorLine (fst (futures s ! k)) e)
       \<and> (snd (futures s ! k) = Finished False \<and> \<not> found_password s \<longrightarrow>
            ErrorLine (fst (futures s ! k)) e \<in> set (printed s))
       \<and> (main_pc s \<noteq> MDone \<longrightarrow> (\<exists>ev. step resp ev s \<noteq> None))"
proof -
  from r have inv: "reach_inv resp pw s" by (rule reachable_inv)
  then have rs: "inv_resp resp s" and cl: "inv_calls s" and ie: "inv_error resp s"
    by (simp_all add: reach_inv_def)
  from rs k have ok: "resp_ok resp k (fst (futures s ! k)) (snd (futures s ! k))"
    by (simp add: inv_resp_def)
  have A: "\<not> claimed (snd (futures s ! k))"
  proof
    assume "claimed (snd (futures s ! k))"
    with ok er show False
      by (cases "snd (futures s ! k)" rule: claimed.cases) simp_all
  qed
  then have A': "snd (futures s ! k) \<noteq> Finished True" by auto
  from cl have "distinct (oracle_calls s)" by (simp add: inv_calls_def)
  then have B: "count_list (oracle_calls s) k \<le> 1" by (rule distinct_count_le)
  have C: "step resp (EWork k) s
      = Some (set_pc k (LogLock (ErrorLine (fst (futures s ! k)) e)) s)"
    if post: "snd (futures s ! k) = Running Posting"
  proof -
    obtain p where p: "futures s ! k = (p, Running Posting)"
      using post by (cases "futures s ! k") auto
    with k er show ?thesis
      by (simp add: worker_step_def)
  qed
  have D: "m = ErrorLine (fst (futures s ! k)) e"
    if "snd (futures s ! k) = Running (LogLock m) \<or> snd (futures s ! k) = Running (LogTest m)
        \<or> snd (futures s ! k) = Running (LogPrint m)" for m
    using that ok er by auto
  from ie k er have E: "snd (futures s ! k) = Finished False \<and> \<not> found_password s \<longrightarrow>
      ErrorLine (fst (futures s ! k)) e \<in> set (printed s)"
    by (simp add: inv_error_def)
  from run_terminates(2)[OF r] have F: "main_pc s \<noteq> MDone \<longrightarrow> (\<exists>ev. step resp ev s \<noteq> None)"
    by blast
  from A A' B C D E F show ?thesis by blast
qed

theorem oracle_fault_contained_witness:
  "steps (\<lambda>i. err_oracle (err_pw ! i)) [EMain, EMain, EMain, EWork 0, EWork 0] (init err_pw)
     = Some err_mid
   \<and> err_oracle (err_pw ! 0) = Error ''refused''
   \<and> snd (futures err_mid ! 0) = Running Posting
   \<and> step (\<lambda>i. err_oracle (err_pw ! i)) (EWork 0) err_mid
       = Some (set_pc 0 (LogLock (ErrorLine ''X'' ''refused'')) err_mid)
   \<and> steps (\<lambda>i. err_oracle (err_pw ! i)) exh_sched (init err_pw) = Some err_final
   \<and> snd (futures err_final ! 0) = Finished False \<and> \<not> found_password err_final
   \<and> main_pc err_final = MDone
   \<and> count_list (oracle_calls err_final) 0 = 1
   \<and> ErrorLine ''X'' ''refused'' \<in> set (printed err_final)"
proof -
  have e: "err_oracle (err_pw ! 0) = Error ''refused''"
    by (simp add: err_oracle_def err_pw_def)
  have k1: "0 < length (futures err_mid)" and k2: "0 < length (futures err_final)"
    by (simp_all add: err_mid_def err_final_def)
  from oracle_fault_contained[OF err_mid_run k1 e] oracle_fault_contained[OF err_run k2 e]
    err_mid_run err_run e
  show ?thesis by (simp add: err_mid_def err_final_def)
qed

theorem error_line_suppressed_counterexample:
  "steps demo_resp supp_sched (init demo_pw) = Some supp_final
   \<and> demo_resp 2 = Error ''timeout'' \<and> fst (futures supp_final ! 2) = ''000C''
   \<and> 2 \<in> set (oracle_calls supp_final)
   \<and> snd (futures supp_final ! 2) = Finished False \<and> main_pc supp_final = MDone
   \<and> ErrorLine ''000C'' ''timeout'' \<notin> set (printed supp_final)
   \<and> printed supp_final = [FoundLine ''000B'']"
  using supp_run by (simp add: supp_final_def demo_resp_def demo_oracle_def demo_pw_def)

text \<open>
  Claim C8. In every run, a task that reaches the test of line 26 when
  \<^verbatim>\<open>found_password\<close> is already true returns \<^verbatim>\<open>False\<close> in that step: its
  future is finished with \<^verbatim>\<open>False\<close>, \<^verbatim>\<open>requests.post\<close> has not been called for
  it and is not called, and nothing is printed.
\<close>

theorem skip_when_found:
  assumes "steps resp es (init pw) = Some s"
    and "k < length (futures s)" and "futures s ! k = (p, Running CheckFound)"
    and "found_password s"
  shows "\<exists>s'. worker_step resp k s = Some s'
       \<and> futures s' ! k = (p, Finished False)
       \<and> oracle_calls s' = oracle_calls s \<and> k \<notin> set (oracle_calls s')
       \<and> printed s' = printed s"
proof -
  from assms(1) have "reach_inv resp pw s" by (rule reachable_inv)
  then have "inv_calls s" by (simp add: reach_inv_def)
  then have "\<forall>j \<in> set (oracle_calls s). called (snd (futures s ! j))"
    by (simp add: inv_calls_def)
  with assms(3) have "k \<notin> set (oracle_calls s)" by auto
  with assms(2-4) show ?thesis
    by (simp add: worker_step_def)
qed

theorem skip_when_found_witness:
  "steps demo_resp skip_sched (init demo_pw) = Some skip_state
   \<and> futures skip_state ! 0 = (''000A'', Running CheckFound) \<and> found_password skip_state
   \<and> (\<exists>s'. worker_step demo_resp 0 skip_state = Some s'
       \<and> futures s' ! 0 = (''000A'', Finished False)
       \<and> oracle_calls s' = oracle_calls skip_state \<and> 0 \<notin> set (oracle_calls s')
       \<and> printed s' = printed skip_state)"
proof -
  have "0 < length (futures skip_state)"
    and "futures skip_state ! 0 = (''000A'', Running CheckFound)"
    and "found_password skip_state"
    by (simp_all add: skip_state_def)
  from skip_when_found[OF skip_run this] skip_run this(2,3) show ?thesis by simp
qed

text \<open>
  Claim C9. In every state of every run, the number of calls of \<^verbatim>\<open>requests.post\<close>
  that are in flight is at most the size of the pool, which is the constant 10 of line 47.
\<close>

theorem in_flight_bounded:
  assumes "steps resp es (init pw) = Some s"
  shows "in_flight s \<le> max_workers \<and> max_workers = 10"
proof -
  from assms have "reach_inv resp pw s" by (rule reachable_inv)
  then have "running_count (futures s) \<le> max_workers"
    by (simp add: reach_inv_def inv_workers_def)
  with in_flight_le_running[of s] show ?thesis
    by (simp add: max_workers_def)
qed

theorem in_flight_bounded_witness:
  "steps (\<lambda>i. err_oracle (err_pw ! i)) [EMain, EMain, EMain, EWork 0, EWork 0] (init err_pw)
     = Some err_mid
   \<and> in_flight err_mid = 1 \<and> in_flight err_mid \<le> max_workers \<and> max_workers = 10"
  using in_flight_bounded[OF err_mid_run] err_mid_run
  by (simp add: in_flight_def err_mid_def)

text \<open>
  Claim C10. \<^verbatim>\<open>run\<close> submits one task for every element of the password list, in the
  order of the list, before it looks at any completion: while the main thread is in the
  comprehension of line 48, the passwords of the futures created so far, followed by the
  passwords still to submit, are the password list, and \<^verbatim>\<open>as_completed\<close> has yielded
  nothing yet; from then on the passwords of the futures are the password list. The
  submission does not read \<^verbatim>\<open>found_password\<close>: the next password is submitted as a
  queued task whatever the value of the flag, so a password is skipped only by the test of
  line 26, in the task itself.
\<close>

theorem submits_every_password_in_order:
  assumes "steps resp es (init pw) = Some s"
  shows "(case main_pc s of
            MSubmit ps \<Rightarrow> map fst (futures s) @ ps = pw \<and> seen s = []
          | _ \<Rightarrow> map fst (futures s) = pw)
       \<and> (\<forall>p ps. main_pc s = MSubmit (p # ps) \<longrightarrow>
            step resp EMain s
              = Some (s\<lparr>futures := futures s @ [(p, Pending)], main_pc := MSubmit ps\<rparr>))"
proof -
  from assms have "reach_inv resp pw s" by (rule reachable_inv)
  then have "inv_submit pw s" by (simp add: reach_inv_def)
  then show ?thesis by (simp add: inv_submit_def)
qed

theorem submits_every_password_in_order_witness:
  "steps (\<lambda>i. Success) sub_sched (init demo_pw) = Some sub_state
   \<and> main_pc sub_state = MSubmit [''000B'', ''000C''] \<and> found_password sub_state
   \<and> map fst (futures sub_state) @ [''000B'', ''000C''] = demo_pw \<and> seen sub_state = []
   \<and> step (\<lambda>i. Success) EMain sub_state
       = Some (sub_state\<lparr>futures := futures sub_state @ [(''000B'', Pending)],
                          main_pc := MSubmit [''000C'']\<rparr>)
   \<and> map fst (futures demo_final) = demo_pw"
  using submits_every_password_in_order[OF sub_run] sub_run
    submits_every_password_in_order[OF demo_run]
  by (simp add: sub_state_def demo_final_def demo_pw_def)

end
